theory Spec2Isabelle
  imports Main
begin

section \<open>Data model\<close>

text \<open>
  A C string is represented by the list of its characters before the terminating NUL.
  \<open>c_string\<close> is the representation invariant; \<open>char_at s k\<close> is the read \<open>s[k]\<close>
  for \<open>k \<le> strlen(s)\<close>, which yields the terminator at \<open>k = strlen(s)\<close>.
  \<open>ArgParser::parse\<close> never reads beyond the terminator: it reads index 1 only
  after index 0 was \<open>'-'\<close>, and index 2 only after index 1 was \<open>'-'\<close>.
\<close>

definition NUL :: char where
  "NUL = CHR 0x00"

definition c_string :: "string \<Rightarrow> bool" where
  "c_string s = (NUL \<notin> set s)"

definition char_at :: "string \<Rightarrow> nat \<Rightarrow> char" where
  "char_at s k = (if k < length s then s ! k else NUL)"

text \<open>\<open>strchr(s, c)\<close>: the offset of the first occurrence of \<open>c\<close>, or the null pointer.\<close>

definition strchr :: "string \<Rightarrow> char \<Rightarrow> nat option" where
  "strchr s c = (if c \<in> set s then Some (length (takeWhile (\<lambda>x. x \<noteq> c) s)) else None)"

text \<open>\<open>class ArgParser::OptionDef\<close>, with its four-argument constructor.\<close>

record OptionDef =
  m_full_name :: string
  m_short_name :: char
  m_description :: string
  m_expect_value :: bool

definition OptionDef :: "string \<Rightarrow> char \<Rightarrow> string \<Rightarrow> bool \<Rightarrow> OptionDef" where
  "OptionDef full_name short_name description expect_value =
     \<lparr>m_full_name = full_name, m_short_name = short_name,
      m_description = description, m_expect_value = expect_value\<rparr>"

text \<open>
  The members of \<open>class ArgParser\<close>. \<open>m_options\<close> is a \<open>std::map\<close> from option full
  name to value; \<open>m_remaining_arguments\<close> is the vector \<open>ArgParser::parse\<close> fills
  after a bare \<open>--\<close>. The header declares neither this member nor the parameter
  \<open>accept_remaining_arguments\<close> of \<open>parse\<close>; the definitions of \<open>ArgParser.cpp\<close>
  are followed.
\<close>

record ArgParser =
  m_executable_path :: string
  m_available_options :: "OptionDef list"
  m_options :: "string \<rightharpoonup> string"
  m_arguments :: "string list"
  m_remaining_arguments :: "string list"

text \<open>
  Every \<open>throw\<close> of the source is one constructor, carrying the values its
  \<open>std::format\<close> call is built from; \<open>what\<close>, further down, renders the message.
  \<open>MissingArgument\<close> carries \<open>m_index\<close>: the position \<open>m_index + 1\<close> of the message
  is computed in the index type and belongs to the rendering.
  \<open>ShortOptionDuplicates\<close> is the \<open>std::runtime_error\<close> of the constructor, the
  others are \<open>ArgParserException\<close>.
  \<open>NullProgramName\<close> stands for \<open>argc = 0\<close>, where \<open>*argv\<close> is a null pointer and
  the source's behaviour is undefined.
\<close>

datatype error =
    ShortOptionDuplicates char string string
  | UnrecognizedLongOption string
  | ExpectedValueLongOption string
  | UnrecognizedShortOption char
  | ExpectedValueShortOption char
  | MissingArgument int
  | MissingOption string
  | NotNumeric string
  | NullProgramName

section \<open>Construction\<close>

text \<open>
  The loop of \<open>ArgParser::ArgParser\<close>: for each definition \<open>current\<close>, \<open>std::find_if\<close>
  over the definitions after it for one with the same short name; the first hit throws.
\<close>

fun check_short_duplicates :: "OptionDef list \<Rightarrow> error + unit" where
  "check_short_duplicates [] = Inr ()"
| "check_short_duplicates (current # rest) =
     (case find (\<lambda>option. m_short_name current = m_short_name option) rest of
        Some duplicate \<Rightarrow>
          Inl (ShortOptionDuplicates (m_short_name current) (m_full_name current)
                 (m_full_name duplicate))
      | None \<Rightarrow> check_short_duplicates rest)"

definition new_ArgParser :: "OptionDef list \<Rightarrow> error + ArgParser" where
  "new_ArgParser options =
     (case check_short_duplicates options of
        Inl e \<Rightarrow> Inl e
      | Inr _ \<Rightarrow>
          Inr \<lparr>m_executable_path = [], m_available_options = options,
               m_options = Map.empty, m_arguments = [], m_remaining_arguments = []\<rparr>)"

section \<open>Parsing\<close>

text \<open>
  One iteration of the \<open>for\<close> loop of \<open>ArgParser::parse\<close>, at the token \<open>argv[i]\<close>
  with the tokens \<open>argv[i+1 .. argc)\<close> after it. The iteration either throws, or
  executes \<open>break\<close> after filling \<open>m_remaining_arguments\<close>, or falls through to
  \<open>i++\<close>; \<open>Continue\<close> carries the tokens from the new \<open>i\<close> on (one token fewer
  when \<open>value = argv[++i]\<close> was executed).
\<close>

datatype step = Continue ArgParser "string list" | Break ArgParser

definition store :: "ArgParser \<Rightarrow> OptionDef \<Rightarrow> string \<Rightarrow> ArgParser" where
  "store p option v = p\<lparr>m_options := (m_options p)(m_full_name option \<mapsto> v)\<rparr>"

definition parse_step ::
  "OptionDef list \<Rightarrow> bool \<Rightarrow> ArgParser \<Rightarrow> string \<Rightarrow> string list \<Rightarrow> error + step" where
  "parse_step available_options accept_remaining_arguments p tok rest =
     (if char_at tok 0 = CHR ''-'' then
        (if char_at tok 1 = CHR ''-'' then
           (if char_at tok 2 = NUL \<and> accept_remaining_arguments then
              Inr (Break (p\<lparr>m_remaining_arguments := rest @ m_remaining_arguments p\<rparr>))
            else
              (let begin = drop 2 tok;
                   end = strchr begin (CHR ''='');
                   full_name = (case end of Some e \<Rightarrow> take e begin | None \<Rightarrow> begin)
               in case find (\<lambda>option. m_full_name option = full_name) available_options of
                    None \<Rightarrow> Inl (UnrecognizedLongOption full_name)
                  | Some option \<Rightarrow>
                      (if m_expect_value option then
                         (case end of
                            Some e \<Rightarrow> Inr (Continue (store p option (drop (e + 1) begin)) rest)
                          | None \<Rightarrow>
                              (case rest of
                                 [] \<Rightarrow> Inl (ExpectedValueLongOption full_name)
                               | next # rest' \<Rightarrow>
                                   (if char_at next 0 \<noteq> CHR ''-''
                                    then Inr (Continue (store p option next) rest')
                                    else Inl (ExpectedValueLongOption full_name))))
                       else Inr (Continue (store p option []) rest))))
         else
           (let short_name = char_at tok 1
            in case find (\<lambda>option. m_short_name option = short_name) available_options of
                 None \<Rightarrow> Inl (UnrecognizedShortOption short_name)
               | Some option \<Rightarrow>
                   (if m_expect_value option then
                      (case rest of
                         [] \<Rightarrow> Inl (ExpectedValueShortOption short_name)
                       | next # rest' \<Rightarrow>
                           (if char_at next 0 \<noteq> CHR ''-''
                            then Inr (Continue (store p option next) rest')
                            else Inl (ExpectedValueShortOption short_name)))
                    else Inr (Continue (store p option []) rest))))
      else Inr (Continue (p\<lparr>m_arguments := m_arguments p @ [tok]\<rparr>) rest))"

lemma parse_step_shorter:
  "parse_step os acc p tok rest = Inr (Continue p' rest') \<Longrightarrow> length rest' \<le> length rest"
  by (auto simp: parse_step_def Let_def split: if_splits option.splits list.splits)

text \<open>The loop: iterations until the tokens are used up, a \<open>break\<close> or a \<open>throw\<close>.\<close>

function parse_loop ::
  "OptionDef list \<Rightarrow> bool \<Rightarrow> ArgParser \<Rightarrow> string list \<Rightarrow> error + ArgParser" where
  "parse_loop os acc p [] = Inr p"
| "parse_loop os acc p (tok # rest) =
     (case parse_step os acc p tok rest of
        Inl e \<Rightarrow> Inl e
      | Inr (Break p') \<Rightarrow> Inr p'
      | Inr (Continue p' rest') \<Rightarrow> parse_loop os acc p' rest')"
  by pat_completeness auto
termination
  by (relation "measure (\<lambda>(os, acc, p, toks). length toks)")
     (auto dest: parse_step_shorter)

text \<open>
  \<open>ArgParser::parse\<close>: clears the three collections, stores \<open>*argv\<close> as the executable
  path and runs the loop from \<open>i = 1\<close>. A \<open>throw\<close> ends the call with the error.
\<close>

definition parse :: "ArgParser \<Rightarrow> string list \<Rightarrow> bool \<Rightarrow> error + ArgParser" where
  "parse p argv accept_remaining_arguments =
     (case argv of
        [] \<Rightarrow> Inl NullProgramName
      | executable # args \<Rightarrow>
          parse_loop (m_available_options p) accept_remaining_arguments
            (p\<lparr>m_options := Map.empty, m_arguments := [], m_remaining_arguments := [],
               m_executable_path := executable\<rparr>)
            args)"

text \<open>
  The branch each token of \<open>argv\<close> is handled by, read off the control flow of the
  loop: the token the iteration starts at is an option token (it passed
  \<open>*argv[i] == '-'\<close> and the iteration stored into \<open>m_options\<close>), a positional token
  (\<open>m_arguments.push_back\<close>) or the separator (the iteration executed \<open>break\<close>); a
  token skipped by \<open>argv[++i]\<close> is an option value; the tokens after the separator
  are the remaining ones. Token 0 is the executable path.
\<close>

datatype token_class =
  Executable | OptionToken | OptionValue | Positional | Separator | Remaining

function token_classes ::
  "OptionDef list \<Rightarrow> bool \<Rightarrow> ArgParser \<Rightarrow> string list \<Rightarrow> error + token_class list" where
  "token_classes os acc p [] = Inr []"
| "token_classes os acc p (tok # rest) =
     (case parse_step os acc p tok rest of
        Inl e \<Rightarrow> Inl e
      | Inr (Break p') \<Rightarrow> Inr (Separator # replicate (length rest) Remaining)
      | Inr (Continue p' rest') \<Rightarrow>
          (case token_classes os acc p' rest' of
             Inl e \<Rightarrow> Inl e
           | Inr cs \<Rightarrow>
               Inr ((if char_at tok 0 = CHR ''-''
                     then OptionToken # replicate (length rest - length rest') OptionValue
                     else [Positional]) @ cs)))"
  by pat_completeness auto
termination
  by (relation "measure (\<lambda>(os, acc, p, toks). length toks)")
     (auto dest: parse_step_shorter)

definition parse_classes :: "ArgParser \<Rightarrow> string list \<Rightarrow> bool \<Rightarrow> error + token_class list" where
  "parse_classes p argv accept_remaining_arguments =
     (case argv of
        [] \<Rightarrow> Inl NullProgramName
      | executable # args \<Rightarrow>
          (case token_classes (m_available_options p) accept_remaining_arguments
                  (p\<lparr>m_options := Map.empty, m_arguments := [], m_remaining_arguments := [],
                     m_executable_path := executable\<rparr>)
                  args of
             Inl e \<Rightarrow> Inl e
           | Inr cs \<Rightarrow> Inr (Executable # cs)))"

definition tokens_of :: "token_class \<Rightarrow> string list \<Rightarrow> token_class list \<Rightarrow> string list" where
  "tokens_of c toks cs = map fst (filter (\<lambda>tc. snd tc = c) (zip toks cs))"

definition count_class :: "token_class \<Rightarrow> token_class list \<Rightarrow> nat" where
  "count_class c cs = length (filter (\<lambda>x. x = c) cs)"

text \<open>
  What the classes say about the tokens and about the option table. \<open>fits\<close>: an option
  token and the separator begin with \<open>-\<close>, a positional token and an option value do
  not. \<open>follows\<close>: an option value comes directly after an option token, the remaining
  tokens are the ones after the separator, and the executable path is the first token
  only (\<open>in_order\<close>).
\<close>

fun fits :: "string \<Rightarrow> token_class \<Rightarrow> bool" where
  "fits tok Executable = True"
| "fits tok OptionToken = (char_at tok 0 = CHR ''-'')"
| "fits tok OptionValue = (char_at tok 0 \<noteq> CHR ''-'')"
| "fits tok Positional = (char_at tok 0 \<noteq> CHR ''-'')"
| "fits tok Separator =
     (char_at tok 0 = CHR ''-'' \<and> char_at tok 1 = CHR ''-'' \<and> char_at tok 2 = NUL)"
| "fits tok Remaining = True"

fun follows :: "token_class \<Rightarrow> token_class list \<Rightarrow> bool" where
  "follows prev [] = True"
| "follows prev (c # cs) =
     (c \<noteq> Executable \<and>
      (c = OptionValue \<longrightarrow> prev = OptionToken) \<and>
      (c = Remaining \<longleftrightarrow> prev = Separator \<or> prev = Remaining) \<and>
      follows c cs)"

fun in_order :: "token_class list \<Rightarrow> bool" where
  "in_order [] = False"
| "in_order (c # cs) = (c = Executable \<and> follows Executable cs)"

text \<open>
  What an option token records, read off the option branch of the loop: \<open>looked_up\<close> is
  the definition that the \<open>std::find_if\<close> of its form finds (by the full name before
  the first \<open>=\<close> for \<open>--name\<close>, by the second character otherwise), \<open>attached\<close> the
  text after the first \<open>=\<close> of a long token. The value recorded under the full name of
  the definition is the next token when that token is an option value, and otherwise
  the attached text for a definition that expects a value and the empty string for one
  that does not. \<open>recorded\<close> lists the records of the option tokens in order, and
  \<open>record_all\<close> stores them one after another, a later record replacing an earlier one
  for the same name.
\<close>

definition looked_up :: "OptionDef list \<Rightarrow> string \<Rightarrow> OptionDef option" where
  "looked_up available_options tok =
     (if char_at tok 1 = CHR ''-'' then
        (let begin = drop 2 tok;
             full_name = (case strchr begin (CHR ''='') of
                            Some e \<Rightarrow> take e begin | None \<Rightarrow> begin)
         in find (\<lambda>option. m_full_name option = full_name) available_options)
      else find (\<lambda>option. m_short_name option = char_at tok 1) available_options)"

definition attached :: "string \<Rightarrow> string option" where
  "attached tok =
     (if char_at tok 1 = CHR ''-'' then
        (case strchr (drop 2 tok) (CHR ''='') of
           Some e \<Rightarrow> Some (drop (e + 1) (drop 2 tok))
         | None \<Rightarrow> None)
      else None)"

definition own_value :: "OptionDef \<Rightarrow> string \<Rightarrow> string" where
  "own_value d tok =
     (if m_expect_value d then (case attached tok of Some v \<Rightarrow> v | None \<Rightarrow> []) else [])"

definition next_value :: "string list \<Rightarrow> token_class list \<Rightarrow> string option" where
  "next_value toks cs =
     (case toks of
        [] \<Rightarrow> None
      | v # _ \<Rightarrow> (case cs of [] \<Rightarrow> None | c # _ \<Rightarrow> if c = OptionValue then Some v else None))"

fun recorded :: "OptionDef list \<Rightarrow> string list \<Rightarrow> token_class list \<Rightarrow> (string \<times> string) list" where
  "recorded os (tok # toks) (c # cs) =
     (if c = OptionToken then
        (case looked_up os tok of
           None \<Rightarrow> recorded os toks cs
         | Some d \<Rightarrow>
             (m_full_name d,
              case next_value toks cs of Some v \<Rightarrow> v | None \<Rightarrow> own_value d tok) #
             recorded os toks cs)
      else recorded os toks cs)"
| "recorded os [] cs = []"
| "recorded os toks [] = []"

definition record_all :: "(string \<rightharpoonup> string) \<Rightarrow> (string \<times> string) list \<Rightarrow> (string \<rightharpoonup> string)" where
  "record_all = foldl (\<lambda>m kv. m(fst kv \<mapsto> snd kv))"

text \<open>The tokens consumed as options or option values, with their classes.\<close>

definition option_tokens :: "string list \<Rightarrow> token_class list \<Rightarrow> string list" where
  "option_tokens toks cs =
     map fst (filter (\<lambda>tc. snd tc = OptionToken \<or> snd tc = OptionValue) (zip toks cs))"

definition option_classes :: "token_class list \<Rightarrow> token_class list" where
  "option_classes cs = filter (\<lambda>c. c = OptionToken \<or> c = OptionValue) cs"

section \<open>Typed access\<close>

text \<open>
  \<open>ValueProxy<IndexT>\<close>: the index is an option name (\<open>std::string_view\<close>,
  \<open>const char*\<close>) or an integral position. \<open>m_index < m_arguments.size()\<close> compares
  after conversion to \<open>size_t\<close>, so that a negative position is never in range.
\<close>

datatype index = Name string | Position int

fun exists :: "ArgParser \<Rightarrow> index \<Rightarrow> bool" where
  "exists p (Position i) = (0 \<le> i \<and> nat i < length (m_arguments p))"
| "exists p (Name n) = (n \<in> dom (m_options p))"

fun as_string :: "ArgParser \<Rightarrow> index \<Rightarrow> error + string" where
  "as_string p (Position i) =
     (if \<not> exists p (Position i) then Inl (MissingArgument i)
      else Inr (m_arguments p ! nat i))"
| "as_string p (Name n) =
     (case m_options p n of
        None \<Rightarrow> Inl (MissingOption n)
      | Some v \<Rightarrow> Inr v)"

text \<open>
  \<open>std::from_chars(first, last, value)\<close> for base 10 is a function of the C++ standard
  library, modelled from the standard (charconv.from.chars): the longest prefix of
  \<open>[first, last)\<close> that is an optional minus sign (only when the type of \<open>value\<close> is
  signed) followed by decimal digits is converted; no leading whitespace and no plus
  sign are accepted. When no characters match, \<open>ec\<close> is \<open>invalid_argument\<close>; when the
  number does not fit the type, \<open>ec\<close> is \<open>result_out_of_range\<close>; in both cases
  \<open>value\<close> is left unmodified. An integer type is given by its signedness and its
  width in bits.
\<close>

record integer_type =
  is_signed :: bool
  width :: nat

definition type_min :: "integer_type \<Rightarrow> int" where
  "type_min ty = (if is_signed ty then - (2 ^ (width ty - 1)) else 0)"

definition type_max :: "integer_type \<Rightarrow> int" where
  "type_max ty = (if is_signed ty then 2 ^ (width ty - 1) - 1 else 2 ^ width ty - 1)"

definition is_digit :: "char \<Rightarrow> bool" where
  "is_digit c = (48 \<le> (of_char c :: nat) \<and> (of_char c :: nat) \<le> 57)"

definition digit_value :: "char \<Rightarrow> nat" where
  "digit_value c = of_char c - 48"

definition decimal :: "string \<Rightarrow> nat" where
  "decimal ds = foldl (\<lambda>n c. 10 * n + digit_value c) 0 ds"

datatype errc = errc_none | invalid_argument | result_out_of_range

definition from_chars :: "integer_type \<Rightarrow> string \<Rightarrow> int \<Rightarrow> int \<times> errc" where
  "from_chars ty s value =
     (let negative = (is_signed ty \<and> char_at s 0 = CHR ''-'');
          digits = takeWhile is_digit (if negative then drop 1 s else s);
          n = (if negative then - int (decimal digits) else int (decimal digits))
      in if digits = [] then (value, invalid_argument)
         else if type_min ty \<le> n \<and> n \<le> type_max ty then (n, errc_none)
         else (value, result_out_of_range))"

text \<open>\<open>as<T>()\<close> for an integer type \<open>T\<close>: only \<open>invalid_argument\<close> is checked.\<close>

definition as_integer :: "integer_type \<Rightarrow> ArgParser \<Rightarrow> index \<Rightarrow> error + int" where
  "as_integer ty p ix =
     (case as_string p ix of
        Inl e \<Rightarrow> Inl e
      | Inr option \<Rightarrow>
          (case from_chars ty option 0 of
             (value, ec) \<Rightarrow>
               if ec = invalid_argument then Inl (NotNumeric option) else Inr value))"

definition as_bool :: "ArgParser \<Rightarrow> index \<Rightarrow> bool" where
  "as_bool p ix = exists p ix"

text \<open>
  \<open>as(T default_value)\<close>: the requested type \<open>T\<close> is the type of the default value, and
  \<open>as<T>()\<close> is the overload that \<open>T\<close> selects.
\<close>

datatype "value" = StringValue string | IntegerValue integer_type int | BoolValue bool

datatype value_type = StringType | IntegerType integer_type | BoolType

fun type_of :: "value \<Rightarrow> value_type" where
  "type_of (StringValue _) = StringType"
| "type_of (IntegerValue ty _) = IntegerType ty"
| "type_of (BoolValue _) = BoolType"

fun as_type :: "value_type \<Rightarrow> ArgParser \<Rightarrow> index \<Rightarrow> error + value" where
  "as_type StringType p ix =
     (case as_string p ix of Inl e \<Rightarrow> Inl e | Inr s \<Rightarrow> Inr (StringValue s))"
| "as_type (IntegerType ty) p ix =
     (case as_integer ty p ix of Inl e \<Rightarrow> Inl e | Inr n \<Rightarrow> Inr (IntegerValue ty n))"
| "as_type BoolType p ix = Inr (BoolValue (as_bool p ix))"

definition as_default :: "ArgParser \<Rightarrow> index \<Rightarrow> value \<Rightarrow> error + value" where
  "as_default p ix default_value =
     (if exists p ix then as_type (type_of default_value) p ix else Inr default_value)"

section \<open>Decimal notation and messages\<close>

text \<open>
  Decimal notation. \<open>literal s\<close>: the whole string is a base-10 integer, that is one
  or more digits, optionally preceded by \<open>-\<close>; \<open>literal_value\<close> is its value.
  \<open>starts_number ty s\<close>: the string begins with a digit, or, for a signed type, with
  \<open>-\<close> and a digit. \<open>show_int\<close> writes an integer in decimal notation.
\<close>

definition digits :: "string \<Rightarrow> bool" where
  "digits ds = (ds \<noteq> [] \<and> list_all is_digit ds)"

definition literal :: "string \<Rightarrow> bool" where
  "literal s = (if char_at s 0 = CHR ''-'' then digits (drop 1 s) else digits s)"

definition literal_value :: "string \<Rightarrow> int" where
  "literal_value s =
     (if char_at s 0 = CHR ''-'' then - int (decimal (drop 1 s)) else int (decimal s))"

definition starts_number :: "integer_type \<Rightarrow> string \<Rightarrow> bool" where
  "starts_number ty s =
     (is_digit (char_at s 0) \<or> (is_signed ty \<and> char_at s 0 = CHR ''-'' \<and> is_digit (char_at s 1)))"

definition digit_char :: "nat \<Rightarrow> char" where
  "digit_char k = ''0123456789'' ! k"

fun show_nat :: "nat \<Rightarrow> string" where
  "show_nat n = (if n < 10 then [digit_char n] else show_nat (n div 10) @ [digit_char (n mod 10)])"

definition show_int :: "int \<Rightarrow> string" where
  "show_int n = (if n < 0 then CHR ''-'' # show_nat (nat (- n)) else show_nat (nat n))"

text \<open>
  The message of each error, as \<open>std::format\<close> builds it. The position of
  \<open>MissingArgument\<close> is rendered for an index type that holds \<open>m_index + 1\<close>; the
  source computes the sum in the index type, where an unsigned index at its maximum
  wraps to position 0.
\<close>

fun what :: "error \<Rightarrow> string" where
  "what (ShortOptionDuplicates c a b) =
     ''found short option duplicates for -'' @ [c] @ '' (--'' @ a @ '' and --'' @ b @ '')''"
| "what (UnrecognizedLongOption n) = ''unrecognized option '' @ [CHR 0x27] @ ''--'' @ n @ [CHR 0x27]"
| "what (ExpectedValueLongOption n) =
     ''expected value for option '' @ [CHR 0x27] @ ''--'' @ n @ [CHR 0x27]"
| "what (UnrecognizedShortOption c) = ''unrecognized option '' @ [CHR 0x27] @ ''-'' @ [c, CHR 0x27]"
| "what (ExpectedValueShortOption c) =
     ''expected value for option '' @ [CHR 0x27] @ ''-'' @ [c, CHR 0x27]"
| "what (MissingArgument k) = ''missing required argument at position '' @ show_int (k + 1)"
| "what (MissingOption n) = ''missing required option --'' @ n"
| "what (NotNumeric s) = s @ '' is not a valid numeric value''"
| "what NullProgramName = []"

section \<open>Example inputs\<close>

text \<open>The registry of the scenarios: a flag \<open>verbose\<close> and a valued option \<open>output\<close>.\<close>

definition example_options :: "OptionDef list" where
  "example_options =
     [OptionDef ''verbose'' (CHR ''v'') [] False, OptionDef ''output'' (CHR ''o'') [] True]"

definition clashing_options :: "OptionDef list" where
  "clashing_options =
     [OptionDef ''verbose'' (CHR ''v'') [] False, OptionDef ''output'' (CHR ''o'') [] True,
      OptionDef ''version'' (CHR ''v'') [] False]"

text \<open>A parser over the example registry, and the scenario of the specification.\<close>

definition example_parser :: ArgParser where
  "example_parser =
     \<lparr>m_executable_path = [], m_available_options = example_options, m_options = Map.empty,
      m_arguments = [], m_remaining_arguments = []\<rparr>"

definition scenario_argv :: "string list" where
  "scenario_argv =
     [''prog'', ''-v'', ''--output=out.txt'', ''file1'', ''file2'', ''--'', ''extra1'', ''extra2'']"

definition scenario_result :: ArgParser where
  "scenario_result =
     \<lparr>m_executable_path = ''prog'', m_available_options = example_options,
      m_options = [''verbose'' \<mapsto> [], ''output'' \<mapsto> ''out.txt''],
      m_arguments = [''file1'', ''file2''], m_remaining_arguments = [''extra1'', ''extra2'']\<rparr>"

definition scenario_classes :: "token_class list" where
  "scenario_classes =
     [Executable, OptionToken, OptionToken, Positional, Positional, Separator, Remaining,
      Remaining]"

text \<open>The tokens of the scenario before the separator.\<close>

definition scenario_head :: "string list" where
  "scenario_head = [''-v'', ''--output=out.txt'', ''file1'', ''file2'']"

text \<open>A call in which an option takes the next token as its value.\<close>

definition values_argv :: "string list" where
  "values_argv = [''prog'', ''-v'', ''-o'', ''out.txt'', ''file1'', ''--'', ''extra1'']"

definition values_result :: ArgParser where
  "values_result =
     \<lparr>m_executable_path = ''prog'', m_available_options = example_options,
      m_options = [''verbose'' \<mapsto> [], ''output'' \<mapsto> ''out.txt''],
      m_arguments = [''file1''], m_remaining_arguments = [''extra1'']\<rparr>"

definition values_classes :: "token_class list" where
  "values_classes =
     [Executable, OptionToken, OptionToken, OptionValue, Positional, Separator, Remaining]"

text \<open>The valued option of the example registry.\<close>

definition output_option :: OptionDef where
  "output_option = OptionDef ''output'' (CHR ''o'') [] True"

text \<open>A registry whose only option has an equals sign in its full name.\<close>

definition equals_option :: OptionDef where
  "equals_option = OptionDef ''a=b'' (CHR ''a'') [] True"

definition equals_parser :: ArgParser where
  "equals_parser =
     \<lparr>m_executable_path = [], m_available_options = [equals_option], m_options = Map.empty,
      m_arguments = [], m_remaining_arguments = []\<rparr>"

text \<open>
  Registries that the constructor accepts and in which an option that expects a value
  is not what its token finds: a flag with the same full name registered before it, an
  empty full name, and the short name \<open>-\<close>.
\<close>

definition shadowed_option :: OptionDef where
  "shadowed_option = OptionDef ''x'' (CHR ''b'') [] True"

definition shadowed_parser :: ArgParser where
  "shadowed_parser =
     \<lparr>m_executable_path = [],
      m_available_options = [OptionDef ''x'' (CHR ''a'') [] False, shadowed_option],
      m_options = Map.empty, m_arguments = [], m_remaining_arguments = []\<rparr>"

definition unnamed_option :: OptionDef where
  "unnamed_option = OptionDef [] (CHR ''e'') [] True"

definition unnamed_parser :: ArgParser where
  "unnamed_parser =
     \<lparr>m_executable_path = [], m_available_options = [unnamed_option], m_options = Map.empty,
      m_arguments = [], m_remaining_arguments = []\<rparr>"

definition dash_option :: OptionDef where
  "dash_option = OptionDef ''dash'' (CHR ''-'') [] True"

definition dash_parser :: ArgParser where
  "dash_parser =
     \<lparr>m_executable_path = [], m_available_options = [dash_option], m_options = Map.empty,
      m_arguments = [], m_remaining_arguments = []\<rparr>"

text \<open>
  Two integer types, and the parser state after \<open>prog --count=s\<close> over a registry with
  the valued option \<open>count\<close>.
\<close>

definition int32 :: integer_type where
  "int32 = \<lparr>is_signed = True, width = 32\<rparr>"

definition uint32 :: integer_type where
  "uint32 = \<lparr>is_signed = False, width = 32\<rparr>"

definition stored :: "string \<Rightarrow> ArgParser" where
  "stored s =
     \<lparr>m_executable_path = ''prog'',
      m_available_options = [OptionDef ''count'' (CHR ''c'') [] True],
      m_options = [''count'' \<mapsto> s], m_arguments = [], m_remaining_arguments = []\<rparr>"

section \<open>Construction rejects duplicate short aliases\<close>

lemma check_short_duplicates_distinct:
  "distinct (map m_short_name os) \<Longrightarrow> check_short_duplicates os = Inr ()"
proof (induction os)
  case Nil
  then show ?case by simp
next
  case (Cons current rest)
  from Cons.prems have "find (\<lambda>option. m_short_name current = m_short_name option) rest = None"
    by (auto simp: find_None_iff)
  with Cons show ?case by simp
qed

lemma check_short_duplicates_found:
  "\<not> distinct (map m_short_name os) \<Longrightarrow>
   \<exists>i j. i < j \<and> j < length os \<and> m_short_name (os ! i) = m_short_name (os ! j) \<and>
     check_short_duplicates os =
       Inl (ShortOptionDuplicates (m_short_name (os ! i)) (m_full_name (os ! i))
              (m_full_name (os ! j)))"
proof (induction os)
  case Nil
  then show ?case by simp
next
  case (Cons current rest)
  show ?case
  proof (cases "find (\<lambda>option. m_short_name current = m_short_name option) rest")
    case (Some duplicate)
    then obtain k where k: "k < length rest" "m_short_name current = m_short_name (rest ! k)"
      "duplicate = rest ! k"
      by (auto simp: find_Some_iff)
    have "0 < Suc k \<and> Suc k < length (current # rest) \<and>
      m_short_name ((current # rest) ! 0) = m_short_name ((current # rest) ! Suc k) \<and>
      check_short_duplicates (current # rest) =
        Inl (ShortOptionDuplicates (m_short_name ((current # rest) ! 0))
               (m_full_name ((current # rest) ! 0)) (m_full_name ((current # rest) ! Suc k)))"
      using Some k by simp
    then show ?thesis by blast
  next
    case None
    then have "m_short_name current \<notin> set (map m_short_name rest)"
      by (auto simp: find_None_iff)
    with Cons.prems have "\<not> distinct (map m_short_name rest)" by simp
    from Cons.IH [OF this] obtain i j where ij: "i < j" "j < length rest"
      "m_short_name (rest ! i) = m_short_name (rest ! j)"
      "check_short_duplicates rest =
         Inl (ShortOptionDuplicates (m_short_name (rest ! i)) (m_full_name (rest ! i))
                (m_full_name (rest ! j)))"
      by blast
    have "Suc i < Suc j \<and> Suc j < length (current # rest) \<and>
      m_short_name ((current # rest) ! Suc i) = m_short_name ((current # rest) ! Suc j) \<and>
      check_short_duplicates (current # rest) =
        Inl (ShortOptionDuplicates (m_short_name ((current # rest) ! Suc i))
               (m_full_name ((current # rest) ! Suc i)) (m_full_name ((current # rest) ! Suc j)))"
      using None ij by simp
    then show ?thesis by blast
  qed
qed

text \<open>
  Claim C5. When the short aliases of the definitions are pairwise distinct, construction
  succeeds and the parser holds the list as given. When two definitions share a short
  alias, construction fails: the error names the shared alias and the full names of two
  definitions at different positions that carry it, the earlier one first.
\<close>

theorem construction_checks_short_aliases:
  "(distinct (map m_short_name options) \<longrightarrow>
      new_ArgParser options =
        Inr \<lparr>m_executable_path = [], m_available_options = options, m_options = Map.empty,
             m_arguments = [], m_remaining_arguments = []\<rparr>) \<and>
   (\<not> distinct (map m_short_name options) \<longrightarrow>
      (\<exists>i j. i < j \<and> j < length options \<and>
         m_short_name (options ! i) = m_short_name (options ! j) \<and>
         new_ArgParser options =
           Inl (ShortOptionDuplicates (m_short_name (options ! i)) (m_full_name (options ! i))
                  (m_full_name (options ! j))) \<and>
         what (ShortOptionDuplicates (m_short_name (options ! i)) (m_full_name (options ! i))
                  (m_full_name (options ! j))) =
           ''found short option duplicates for -'' @ [m_short_name (options ! i)] @ '' (--'' @
             m_full_name (options ! i) @ '' and --'' @ m_full_name (options ! j) @ '')''))"
proof (intro conjI impI)
  assume "distinct (map m_short_name options)"
  then show "new_ArgParser options =
        Inr \<lparr>m_executable_path = [], m_available_options = options, m_options = Map.empty,
             m_arguments = [], m_remaining_arguments = []\<rparr>"
    by (simp add: new_ArgParser_def check_short_duplicates_distinct)
next
  assume "\<not> distinct (map m_short_name options)"
  from check_short_duplicates_found [OF this] obtain i j where
    "i < j" "j < length options" "m_short_name (options ! i) = m_short_name (options ! j)"
    "check_short_duplicates options =
       Inl (ShortOptionDuplicates (m_short_name (options ! i)) (m_full_name (options ! i))
              (m_full_name (options ! j)))"
    by blast
  then show "\<exists>i j. i < j \<and> j < length options \<and>
         m_short_name (options ! i) = m_short_name (options ! j) \<and>
         new_ArgParser options =
           Inl (ShortOptionDuplicates (m_short_name (options ! i)) (m_full_name (options ! i))
                  (m_full_name (options ! j))) \<and>
         what (ShortOptionDuplicates (m_short_name (options ! i)) (m_full_name (options ! i))
                  (m_full_name (options ! j))) =
           ''found short option duplicates for -'' @ [m_short_name (options ! i)] @ '' (--'' @
             m_full_name (options ! i) @ '' and --'' @ m_full_name (options ! j) @ '')''"
    by (intro exI [of _ i] exI [of _ j]) (simp add: new_ArgParser_def)
qed

theorem construction_checks_short_aliases_witness:
  "distinct (map m_short_name example_options) \<and>
   new_ArgParser example_options =
     Inr \<lparr>m_executable_path = [], m_available_options = example_options, m_options = Map.empty,
          m_arguments = [], m_remaining_arguments = []\<rparr> \<and>
   \<not> distinct (map m_short_name clashing_options) \<and>
   new_ArgParser clashing_options = Inl (ShortOptionDuplicates (CHR ''v'') ''verbose'' ''version'')"
proof -
  have d: "distinct (map m_short_name example_options)"
    by (simp add: example_options_def OptionDef_def)
  have n: "\<not> distinct (map m_short_name clashing_options)"
    by (simp add: clashing_options_def OptionDef_def)
  have c: "new_ArgParser clashing_options = Inl (ShortOptionDuplicates (CHR ''v'') ''verbose'' ''version'')"
    using construction_checks_short_aliases [of clashing_options] n
    by (auto simp: new_ArgParser_def clashing_options_def OptionDef_def)
  show ?thesis
    using construction_checks_short_aliases [of example_options] d n c by simp
qed

section \<open>The parsing loop\<close>

lemma separator_token:
  "c_string tok \<Longrightarrow> char_at tok 0 = CHR ''-'' \<Longrightarrow> char_at tok 1 = CHR ''-'' \<Longrightarrow>
   char_at tok 2 = NUL \<Longrightarrow> tok = ''--''"
proof -
  assume a: "c_string tok" "char_at tok 0 = CHR ''-''" "char_at tok 1 = CHR ''-''"
    "char_at tok 2 = NUL"
  have n: "NUL \<noteq> CHR ''-''" by (simp add: NUL_def)
  from a(2) n have l0: "0 < length tok" and t0: "tok ! 0 = CHR ''-''"
    by (auto simp: char_at_def split: if_splits)
  from a(3) n have l1: "1 < length tok" and t1: "tok ! 1 = CHR ''-''"
    by (auto simp: char_at_def split: if_splits)
  have "\<not> 2 < length tok"
  proof
    assume "2 < length tok"
    with a(4) have "tok ! 2 = NUL" by (simp add: char_at_def)
    with \<open>2 < length tok\<close> have "NUL \<in> set tok" by (metis nth_mem)
    with a(1) show False by (simp add: c_string_def)
  qed
  with l1 have "length tok = 2" by simp
  then obtain a b where "tok = [a, b]"
    by (cases tok; cases "tl tok") auto
  with t0 t1 show ?thesis by simp
qed

lemma parse_step_Break:
  "parse_step os acc p tok rest = Inr (Break p') \<Longrightarrow>
   acc \<and> char_at tok 0 = CHR ''-'' \<and> char_at tok 1 = CHR ''-'' \<and> char_at tok 2 = NUL \<and>
   p' = p\<lparr>m_remaining_arguments := rest @ m_remaining_arguments p\<rparr>"
  by (auto simp: parse_step_def Let_def split: if_splits option.splits list.splits)

lemma parse_step_Continue:
  "parse_step os acc p tok rest = Inr (Continue p' rest') \<Longrightarrow>
   (char_at tok 0 \<noteq> CHR ''-'' \<and> rest' = rest \<and> p' = p\<lparr>m_arguments := m_arguments p @ [tok]\<rparr>) \<or>
   (char_at tok 0 = CHR ''-'' \<and> m_arguments p' = m_arguments p \<and>
    m_remaining_arguments p' = m_remaining_arguments p \<and>
    (rest' = rest \<or> (\<exists>v. rest = v # rest')))"
  by (auto simp: parse_step_def Let_def store_def split: if_splits option.splits list.splits)

lemma parse_step_Continue_append:
  "parse_step os acc p tok rest = Inr (Continue p' rest') \<Longrightarrow>
   parse_step os acc p tok (rest @ post) = Inr (Continue p' (rest' @ post))"
  by (auto simp: parse_step_def Let_def split: if_splits option.splits list.splits)

lemma parse_loop_append:
  "parse_loop os acc p pre = Inr p' \<Longrightarrow> (acc \<longrightarrow> ''--'' \<notin> set pre) \<Longrightarrow>
   \<forall>t \<in> set pre. c_string t \<Longrightarrow>
   parse_loop os acc p (pre @ post) = parse_loop os acc p' post"
proof (induction os acc p pre rule: parse_loop.induct)
  case (1 os acc p)
  then show ?case by simp
next
  case (2 os acc p tok rest)
  show ?case
  proof (cases "parse_step os acc p tok rest")
    case (Inl e)
    with "2.prems" show ?thesis by simp
  next
    case (Inr s)
    show ?thesis
    proof (cases s)
      case (Break q)
      with Inr have "acc \<and> char_at tok 0 = CHR ''-'' \<and> char_at tok 1 = CHR ''-'' \<and> char_at tok 2 = NUL"
        by (auto dest: parse_step_Break)
      moreover from "2.prems" have "c_string tok" by simp
      ultimately have "tok = ''--''" "acc" by (auto intro: separator_token)
      with "2.prems" show ?thesis by simp
    next
      case (Continue q rest')
      with Inr have st: "parse_step os acc p tok rest = Inr (Continue q rest')" by simp
      from parse_step_Continue [OF st] have sub: "set rest' \<subseteq> set rest" by auto
      from st "2.prems" have l: "parse_loop os acc q rest' = Inr p'" by simp
      have "parse_loop os acc q (rest' @ post) = parse_loop os acc p' post"
        using "2.IH" [OF st refl l] "2.prems" sub by (auto simp del: parse_loop.simps)
      with parse_step_Continue_append [OF st, of post] show ?thesis by simp
    qed
  qed
qed

section \<open>Every token is handled by one branch\<close>

lemma tokens_of_Nil [simp]: "tokens_of c [] cs = []"
  by (simp add: tokens_of_def)

lemma tokens_of_Cons [simp]:
  "tokens_of c (t # toks) (d # cs) = (if d = c then t # tokens_of c toks cs else tokens_of c toks cs)"
  by (simp add: tokens_of_def)

lemma tokens_of_replicate:
  "tokens_of c toks (replicate (length toks) d) = (if d = c then toks else [])"
  by (induction toks) auto

lemma count_class_Nil [simp]: "count_class c [] = 0"
  by (simp add: count_class_def)

lemma count_class_Cons [simp]:
  "count_class c (d # cs) = (if d = c then Suc (count_class c cs) else count_class c cs)"
  by (simp add: count_class_def)

lemma count_class_replicate: "count_class c (replicate n d) = (if d = c then n else 0)"
  by (induction n) auto

lemma count_class_total:
  "count_class Executable cs + count_class OptionToken cs + count_class OptionValue cs +
   count_class Positional cs + count_class Separator cs + count_class Remaining cs = length cs"
proof (induction cs)
  case Nil
  show ?case by simp
next
  case (Cons d cs)
  then show ?case by (cases d) simp_all
qed

lemma length_tokens_of:
  "length toks = length cs \<Longrightarrow> length (tokens_of c toks cs) = count_class c cs"
proof (induction toks arbitrary: cs)
  case Nil
  then show ?case by simp
next
  case (Cons t toks)
  then obtain d ds where "cs = d # ds" by (cases cs) auto
  with Cons show ?case by simp
qed

lemma token_classes_of_loop:
  "parse_loop os acc p toks = Inr p' \<Longrightarrow>
   \<exists>cs. token_classes os acc p toks = Inr cs \<and> length cs = length toks \<and>
     m_arguments p' = m_arguments p @ tokens_of Positional toks cs \<and>
     m_remaining_arguments p' = tokens_of Remaining toks cs @ m_remaining_arguments p \<and>
     count_class Executable cs = 0 \<and> count_class Separator cs \<le> 1 \<and>
     (acc \<or> count_class Separator cs = 0)"
proof (induction os acc p toks rule: parse_loop.induct)
  case (1 os acc p)
  then show ?case by simp
next
  case (2 os acc p tok rest)
  show ?case
  proof (cases "parse_step os acc p tok rest")
    case (Inl e)
    with "2.prems" show ?thesis by simp
  next
    case (Inr s)
    show ?thesis
    proof (cases s)
      case (Break q)
      with Inr have st: "parse_step os acc p tok rest = Inr (Break q)" by simp
      from parse_step_Break [OF st] "2.prems" st
      have "acc" and p': "p' = p\<lparr>m_remaining_arguments := rest @ m_remaining_arguments p\<rparr>"
        by auto
      with st show ?thesis
        by (simp add: tokens_of_replicate count_class_replicate)
    next
      case (Continue q rest')
      with Inr have st: "parse_step os acc p tok rest = Inr (Continue q rest')" by simp
      from st "2.prems" have l: "parse_loop os acc q rest' = Inr p'" by simp
      from "2.IH" [OF st refl l] obtain cs where cs:
        "token_classes os acc q rest' = Inr cs" "length cs = length rest'"
        "m_arguments p' = m_arguments q @ tokens_of Positional rest' cs"
        "m_remaining_arguments p' = tokens_of Remaining rest' cs @ m_remaining_arguments q"
        "count_class Executable cs = 0" "count_class Separator cs \<le> 1"
        "acc \<or> count_class Separator cs = 0"
        by blast
      from parse_step_Continue [OF st] consider
        (positional) "char_at tok 0 \<noteq> CHR ''-''" "rest' = rest"
          "q = p\<lparr>m_arguments := m_arguments p @ [tok]\<rparr>"
        | (flag) "char_at tok 0 = CHR ''-''" "m_arguments q = m_arguments p"
          "m_remaining_arguments q = m_remaining_arguments p" "rest' = rest"
        | (valued) v where "char_at tok 0 = CHR ''-''" "m_arguments q = m_arguments p"
          "m_remaining_arguments q = m_remaining_arguments p" "rest = v # rest'"
        by blast
      then show ?thesis
      proof cases
        case positional
        with st cs show ?thesis by simp
      next
        case flag
        with st cs show ?thesis by simp
      next
        case valued
        with st cs show ?thesis by simp
      qed
    qed
  qed
qed

lemma token_classes_error:
  "parse_loop os acc p toks = Inl e \<Longrightarrow> token_classes os acc p toks = Inl e"
proof (induction os acc p toks rule: parse_loop.induct)
  case (1 os acc p)
  then show ?case by simp
next
  case (2 os acc p tok rest)
  then show ?case
    by (auto split: sum.splits step.splits)
qed

lemmas eval_defs = parse_def parse_classes_def parse_step_def store_def char_at_def strchr_def NUL_def Let_def
  example_parser_def example_options_def OptionDef_def

lemma scenario_parse: "parse example_parser scenario_argv True = Inr scenario_result"
  by (simp add: eval_defs scenario_argv_def scenario_result_def)

lemma scenario_parse_classes: "parse_classes example_parser scenario_argv True = Inr scenario_classes"
  by (simp add: eval_defs scenario_argv_def scenario_classes_def)

section \<open>A bare separator starts the remaining tail\<close>

lemma parse_loop_keeps_remaining:
  "parse_loop os acc p pre = Inr p' \<Longrightarrow> (acc \<longrightarrow> ''--'' \<notin> set pre) \<Longrightarrow>
   \<forall>t \<in> set pre. c_string t \<Longrightarrow>
   m_remaining_arguments p' = m_remaining_arguments p"
proof (induction os acc p pre rule: parse_loop.induct)
  case (1 os acc p)
  then show ?case by simp
next
  case (2 os acc p tok rest)
  show ?case
  proof (cases "parse_step os acc p tok rest")
    case (Inl e)
    with "2.prems" show ?thesis by simp
  next
    case (Inr s)
    show ?thesis
    proof (cases s)
      case (Break q)
      with Inr have "acc \<and> char_at tok 0 = CHR ''-'' \<and> char_at tok 1 = CHR ''-'' \<and> char_at tok 2 = NUL"
        by (auto dest: parse_step_Break)
      moreover from "2.prems" have "c_string tok" by simp
      ultimately have "tok = ''--''" "acc" by (auto intro: separator_token)
      with "2.prems" show ?thesis by simp
    next
      case (Continue q rest')
      with Inr have st: "parse_step os acc p tok rest = Inr (Continue q rest')" by simp
      from parse_step_Continue [OF st] have sub: "set rest' \<subseteq> set rest"
        and q: "m_remaining_arguments q = m_remaining_arguments p" by auto
      from st "2.prems" have l: "parse_loop os acc q rest' = Inr p'" by simp
      have "m_remaining_arguments p' = m_remaining_arguments q"
        using "2.IH" [OF st refl l] "2.prems" sub by (auto simp del: parse_loop.simps)
      with q show ?thesis by simp
    qed
  qed
qed

lemma token_classes_append:
  "token_classes os acc p pre = Inr cs \<Longrightarrow> parse_loop os acc p pre = Inr p' \<Longrightarrow>
   (acc \<longrightarrow> ''--'' \<notin> set pre) \<Longrightarrow> \<forall>t \<in> set pre. c_string t \<Longrightarrow>
   token_classes os acc p (pre @ post) =
     (case token_classes os acc p' post of Inl e \<Rightarrow> Inl e | Inr ds \<Rightarrow> Inr (cs @ ds))"
proof (induction os acc p pre arbitrary: cs rule: token_classes.induct)
  case (1 os acc p)
  then show ?case by (simp split: sum.splits)
next
  case (2 os acc p tok rest)
  show ?case
  proof (cases "parse_step os acc p tok rest")
    case (Inl e)
    with "2.prems" show ?thesis by simp
  next
    case (Inr s)
    show ?thesis
    proof (cases s)
      case (Break q)
      with Inr have "acc \<and> char_at tok 0 = CHR ''-'' \<and> char_at tok 1 = CHR ''-'' \<and> char_at tok 2 = NUL"
        by (auto dest: parse_step_Break)
      moreover from "2.prems" have "c_string tok" by simp
      ultimately have "tok = ''--''" "acc" by (auto intro: separator_token)
      with "2.prems" show ?thesis by simp
    next
      case (Continue q rest')
      with Inr have st: "parse_step os acc p tok rest = Inr (Continue q rest')" by simp
      from parse_step_Continue [OF st] have sub: "set rest' \<subseteq> set rest" by auto
      from parse_step_shorter [OF st] have len: "length rest' \<le> length rest" .
      from st "2.prems" have l: "parse_loop os acc q rest' = Inr p'" by simp
      from st "2.prems"(1) obtain cs' where cs': "token_classes os acc q rest' = Inr cs'"
        and cs: "cs = (if char_at tok 0 = CHR ''-''
                     then OptionToken # replicate (length rest - length rest') OptionValue
                     else [Positional]) @ cs'"
        by (auto split: sum.splits)
      have ih: "token_classes os acc q (rest' @ post) =
        (case token_classes os acc p' post of Inl e \<Rightarrow> Inl e | Inr ds \<Rightarrow> Inr (cs' @ ds))"
        using "2.IH" [OF st refl cs' l] "2.prems" sub
        by (auto simp del: parse_loop.simps token_classes.simps)
      from len have "length (rest @ post) - length (rest' @ post) = length rest - length rest'"
        by simp
      with parse_step_Continue_append [OF st, of post] ih cs show ?thesis
        by (simp split: sum.splits)
    qed
  qed
qed

lemma parse_step_separator:
  "parse_step os True p ''--'' rest =
     Inr (Break (p\<lparr>m_remaining_arguments := rest @ m_remaining_arguments p\<rparr>))"
  by (simp add: parse_step_def char_at_def NUL_def)

text \<open>
  Claim C2. Let the tokens after the executable path be \<open>pre\<close>, a bare \<open>--\<close> and
  \<open>post\<close>, where no token of \<open>pre\<close> is \<open>--\<close> and \<open>pre\<close> is handled without error
  (\<open>parse\<close> of the executable path and \<open>pre\<close> alone succeeds; a failure of \<open>pre\<close>
  followed by \<open>--\<close> is a failure of \<open>pre\<close> alone, since an option never takes a
  token beginning with \<open>-\<close> as its value). With \<open>accept_remaining_arguments\<close> enabled the
  result is the result for \<open>pre\<close> with \<open>post\<close>, verbatim and in order, as
  \<open>m_remaining_arguments\<close>: the option table and the positional arguments do not see
  \<open>post\<close>. The bare \<open>--\<close> is the separator and every token of \<open>post\<close> is a
  remaining token.
\<close>

theorem separator_moves_tail_to_remaining:
  assumes "parse p (executable # pre) True = Inr p'"
    and "''--'' \<notin> set pre"
    and "\<forall>t \<in> set pre. c_string t"
  shows "parse p (executable # pre @ ''--'' # post) True =
           Inr (p'\<lparr>m_remaining_arguments := post\<rparr>) \<and>
         (\<exists>cs. parse_classes p (executable # pre) True = Inr cs \<and>
            parse_classes p (executable # pre @ ''--'' # post) True =
              Inr (cs @ Separator # replicate (length post) Remaining))"
proof -
  define q where "q = p\<lparr>m_options := Map.empty, m_arguments := [], m_remaining_arguments := [],
    m_executable_path := executable\<rparr>"
  let ?os = "m_available_options p"
  from assms(1) have l: "parse_loop ?os True q pre = Inr p'"
    by (simp add: parse_def q_def)
  from assms(2) have ns: "True \<longrightarrow> ''--'' \<notin> set pre" by simp
  have "m_remaining_arguments p' = m_remaining_arguments q"
    by (rule parse_loop_keeps_remaining [OF l ns assms(3)])
  then have r: "m_remaining_arguments p' = []" by (simp add: q_def)
  have "parse_loop ?os True q (pre @ ''--'' # post) = parse_loop ?os True p' (''--'' # post)"
    by (rule parse_loop_append [OF l ns assms(3)])
  also have "\<dots> = Inr (p'\<lparr>m_remaining_arguments := post\<rparr>)"
    using r by (simp add: parse_step_separator)
  finally have 1: "parse p (executable # pre @ ''--'' # post) True =
      Inr (p'\<lparr>m_remaining_arguments := post\<rparr>)"
    by (simp add: parse_def q_def)
  from token_classes_of_loop [OF l] obtain cs where cs: "token_classes ?os True q pre = Inr cs"
    by blast
  have "token_classes ?os True q (pre @ ''--'' # post) =
      (case token_classes ?os True p' (''--'' # post) of
         Inl e \<Rightarrow> Inl e | Inr ds \<Rightarrow> Inr (cs @ ds))"
    by (rule token_classes_append [OF cs l ns assms(3)])
  then have "token_classes ?os True q (pre @ ''--'' # post) =
      Inr (cs @ Separator # replicate (length post) Remaining)"
    by (simp add: parse_step_separator)
  with cs have "parse_classes p (executable # pre) True = Inr (Executable # cs) \<and>
      parse_classes p (executable # pre @ ''--'' # post) True =
        Inr ((Executable # cs) @ Separator # replicate (length post) Remaining)"
    by (simp add: parse_classes_def q_def)
  then have 2: "\<exists>cs. parse_classes p (executable # pre) True = Inr cs \<and>
            parse_classes p (executable # pre @ ''--'' # post) True =
              Inr (cs @ Separator # replicate (length post) Remaining)"
    by blast
  from 1 2 show ?thesis by simp
qed

lemma scenario_head_parse:
  "parse example_parser (''prog'' # scenario_head) True =
     Inr (scenario_result\<lparr>m_remaining_arguments := []\<rparr>)"
  by (simp add: eval_defs scenario_head_def scenario_result_def)

theorem separator_moves_tail_to_remaining_witness:
  "parse example_parser (''prog'' # scenario_head) True =
     Inr (scenario_result\<lparr>m_remaining_arguments := []\<rparr>) \<and>
   ''--'' \<notin> set scenario_head \<and> map c_string scenario_head = [True, True, True, True] \<and>
   parse example_parser (''prog'' # scenario_head @ ''--'' # [''extra1'', ''extra2'']) True =
     Inr scenario_result"
proof -
  have a: "''--'' \<notin> set scenario_head" by (simp add: scenario_head_def)
  have b: "\<forall>t \<in> set scenario_head. c_string t"
    by (simp add: scenario_head_def c_string_def NUL_def)
  have c: "scenario_result\<lparr>m_remaining_arguments := [], m_remaining_arguments := [''extra1'', ''extra2'']\<rparr> = scenario_result"
    by (simp add: scenario_result_def)
  have d: "map c_string scenario_head = [True, True, True, True]"
    by (simp add: scenario_head_def c_string_def NUL_def)
  from separator_moves_tail_to_remaining [OF scenario_head_parse a b, of "[''extra1'', ''extra2'']"]
  show ?thesis using scenario_head_parse a c d by simp
qed

section \<open>Options at any position the loop reaches\<close>

lemma parse_after_prefix:
  assumes "parse p (executable # pre) acc = Inr p'"
    and "acc \<longrightarrow> ''--'' \<notin> set pre"
    and "\<forall>t \<in> set pre. c_string t"
  shows "parse p (executable # pre @ post) acc = parse_loop (m_available_options p) acc p' post"
proof -
  define q where "q = p\<lparr>m_options := Map.empty, m_arguments := [], m_remaining_arguments := [],
    m_executable_path := executable\<rparr>"
  from assms(1) have "parse_loop (m_available_options p) acc q pre = Inr p'"
    by (simp add: parse_def q_def)
  from parse_loop_append [OF this assms(2,3), of post] show ?thesis
    by (simp add: parse_def q_def)
qed

lemma parse_classes_after_prefix:
  assumes "parse p (executable # pre) acc = Inr p'"
    and "acc \<longrightarrow> ''--'' \<notin> set pre"
    and "\<forall>t \<in> set pre. c_string t"
  shows "\<exists>cs. parse_classes p (executable # pre) acc = Inr cs \<and>
    (\<forall>post. parse_classes p (executable # pre @ post) acc =
      (case token_classes (m_available_options p) acc p' post of
         Inl e \<Rightarrow> Inl e | Inr ds \<Rightarrow> Inr (cs @ ds)))"
proof -
  define q where "q = p\<lparr>m_options := Map.empty, m_arguments := [], m_remaining_arguments := [],
    m_executable_path := executable\<rparr>"
  from assms(1) have l: "parse_loop (m_available_options p) acc q pre = Inr p'"
    by (simp add: parse_def q_def)
  from token_classes_of_loop [OF l] obtain cs where
    cs: "token_classes (m_available_options p) acc q pre = Inr cs"
    by blast
  have "parse_classes p (executable # pre @ post) acc =
      (case token_classes (m_available_options p) acc p' post of
         Inl e \<Rightarrow> Inl e | Inr ds \<Rightarrow> Inr ((Executable # cs) @ ds))" for post
    using token_classes_append [OF cs l assms(2,3), of post]
    by (simp add: parse_classes_def q_def split: sum.splits)
  moreover have "parse_classes p (executable # pre) acc = Inr (Executable # cs)"
    using cs by (simp add: parse_classes_def q_def)
  ultimately show ?thesis by blast
qed

lemma char_at_Nil [simp]: "char_at [] k = NUL"
  by (simp add: char_at_def)

lemma char_at_Cons_0 [simp]: "char_at (x # xs) 0 = x"
  by (simp add: char_at_def)

lemma char_at_Cons_Suc [simp]: "char_at (x # xs) (Suc k) = char_at xs k"
  by (simp add: char_at_def)

lemma char_at_Cons_numeral [simp]: "char_at (x # xs) (numeral k) = char_at xs (pred_numeral k)"
  by (simp add: char_at_def numeral_eq_Suc)

lemma name_starts: "n \<noteq> [] \<Longrightarrow> c_string n \<Longrightarrow> char_at n 0 \<noteq> NUL"
  by (cases n) (auto simp: c_string_def)

lemma strchr_None: "c \<notin> set s \<Longrightarrow> strchr s c = None"
  by (simp add: strchr_def)

lemma strchr_Some: "c \<notin> set n \<Longrightarrow> strchr (n @ c # v) c = Some (length n)"
proof -
  assume "c \<notin> set n"
  then have "takeWhile (\<lambda>x. x \<noteq> c) (n @ c # v) = n @ takeWhile (\<lambda>x. x \<noteq> c) (c # v)"
    by (intro takeWhile_append2) auto
  then show ?thesis by (simp add: strchr_def)
qed

lemma parse_step_long_missing:
  assumes "find (\<lambda>option. m_full_name option = name) os = Some d" "m_expect_value d"
    and "name \<noteq> []" "c_string name" "CHR ''='' \<notin> set name"
    and "rest = [] \<or> char_at (hd rest) 0 = CHR ''-''"
  shows "parse_step os acc p (''--'' @ name) rest = Inl (ExpectedValueLongOption name)"
  using assms name_starts [OF assms(3,4)]
  by (cases rest) (auto simp: parse_step_def strchr_None Let_def)

lemma parse_step_short_missing:
  assumes "find (\<lambda>option. m_short_name option = c) os = Some d" "m_expect_value d"
    and "c \<noteq> CHR ''-''"
    and "rest = [] \<or> char_at (hd rest) 0 = CHR ''-''"
  shows "parse_step os acc p (CHR ''-'' # c # extra) rest = Inl (ExpectedValueShortOption c)"
  using assms
  by (cases rest) (auto simp: parse_step_def Let_def)

text \<open>
  Claim C4, amended. Let the loop reach an option token after a prefix \<open>pre\<close> handled
  without error, let \<open>d\<close> be a definition that expects a value and that the lookup of
  the token finds, and let the next token not exist or begin with \<open>-\<close>. If the token
  is \<open>--name\<close>, where \<open>name\<close> is the full name of \<open>d\<close>, is not empty, has no \<open>=\<close> and
  is found as \<open>d\<close> by full name, \<open>parse\<close> throws "expected value for option
  '--name'". If the token is \<open>-c\<close> followed by any characters, where \<open>c\<close> is the short
  name of \<open>d\<close>, is not \<open>-\<close> and is found as \<open>d\<close> by short name, \<open>parse\<close> throws
  "expected value for option '-c'". In both cases the call ends with the error: no
  value is stored and the next token is not consumed.
\<close>

theorem missing_value_is_an_error:
  assumes "parse p (executable # pre) acc = Inr p'"
    and "acc \<longrightarrow> ''--'' \<notin> set pre"
    and "\<forall>t \<in> set pre. c_string t"
    and "m_expect_value d"
    and "rest = [] \<or> char_at (hd rest) 0 = CHR ''-''"
  shows "(find (\<lambda>option. m_full_name option = m_full_name d) (m_available_options p) = Some d \<and>
          m_full_name d \<noteq> [] \<and> c_string (m_full_name d) \<and> CHR ''='' \<notin> set (m_full_name d) \<longrightarrow>
          parse p (executable # pre @ (''--'' @ m_full_name d) # rest) acc =
            Inl (ExpectedValueLongOption (m_full_name d))) \<and>
         (find (\<lambda>option. m_short_name option = m_short_name d) (m_available_options p) = Some d \<and>
          m_short_name d \<noteq> CHR ''-'' \<longrightarrow>
          parse p (executable # pre @ (CHR ''-'' # m_short_name d # extra) # rest) acc =
            Inl (ExpectedValueShortOption (m_short_name d)))"
proof (intro conjI impI)
  assume "find (\<lambda>option. m_full_name option = m_full_name d) (m_available_options p) = Some d \<and>
          m_full_name d \<noteq> [] \<and> c_string (m_full_name d) \<and> CHR ''='' \<notin> set (m_full_name d)"
  then have "parse_step (m_available_options p) acc p' (''--'' @ m_full_name d) rest =
      Inl (ExpectedValueLongOption (m_full_name d))"
    using assms(4,5) by (intro parse_step_long_missing) simp_all
  then show "parse p (executable # pre @ (''--'' @ m_full_name d) # rest) acc =
            Inl (ExpectedValueLongOption (m_full_name d))"
    by (simp add: parse_after_prefix [OF assms(1,2,3)])
next
  assume "find (\<lambda>option. m_short_name option = m_short_name d) (m_available_options p) = Some d \<and>
          m_short_name d \<noteq> CHR ''-''"
  then have "parse_step (m_available_options p) acc p' (CHR ''-'' # m_short_name d # extra) rest =
      Inl (ExpectedValueShortOption (m_short_name d))"
    using assms(4,5) by (intro parse_step_short_missing) simp_all
  then show "parse p (executable # pre @ (CHR ''-'' # m_short_name d # extra) # rest) acc =
            Inl (ExpectedValueShortOption (m_short_name d))"
    by (simp add: parse_after_prefix [OF assms(1,2,3)])
qed

lemma file1_parse:
  "parse example_parser [''prog'', ''file1''] True =
     Inr (example_parser\<lparr>m_arguments := [''file1''], m_executable_path := ''prog''\<rparr>)"
  by (simp add: eval_defs)

theorem missing_value_is_an_error_witness:
  "parse example_parser [''prog'', ''file1'', ''--output'', ''-v''] True =
     Inl (ExpectedValueLongOption ''output'') \<and>
   parse example_parser [''prog'', ''file1'', ''-o''] True =
     Inl (ExpectedValueShortOption (CHR ''o''))"
proof -
  have a: "True \<longrightarrow> ''--'' \<notin> set [''file1'']" by simp
  have b: "\<forall>t \<in> set [''file1'']. c_string t" by (simp add: c_string_def NUL_def)
  have e: "m_expect_value output_option" by (simp add: output_option_def OptionDef_def)
  have r1: "[''-v''] = [] \<or> char_at (hd [''-v'']) 0 = CHR ''-''" by simp
  have r2: "([] :: string list) = [] \<or> char_at (hd []) 0 = CHR ''-''" by simp
  have f: "find (\<lambda>option. m_full_name option = m_full_name output_option)
      (m_available_options example_parser) = Some output_option \<and>
      m_full_name output_option \<noteq> [] \<and> c_string (m_full_name output_option) \<and>
      CHR ''='' \<notin> set (m_full_name output_option)"
    by (simp add: output_option_def example_parser_def example_options_def OptionDef_def
        c_string_def NUL_def)
  have s: "find (\<lambda>option. m_short_name option = m_short_name output_option)
      (m_available_options example_parser) = Some output_option \<and>
      m_short_name output_option \<noteq> CHR ''-''"
    by (simp add: output_option_def example_parser_def example_options_def OptionDef_def)
  have n: "m_full_name output_option = ''output''" "m_short_name output_option = CHR ''o''"
    by (simp_all add: output_option_def OptionDef_def)
  from missing_value_is_an_error [OF file1_parse a b e r1, of "[]"] f n
  have 1: "parse example_parser [''prog'', ''file1'', ''--output'', ''-v''] True =
     Inl (ExpectedValueLongOption ''output'')" by simp
  from missing_value_is_an_error [OF file1_parse a b e r2, of "[]"] s n
  have 2: "parse example_parser [''prog'', ''file1'', ''-o''] True =
     Inl (ExpectedValueShortOption (CHR ''o''))" by simp
  from 1 2 show ?thesis by simp
qed

text \<open>
  Claim C4 as stated covers every registered option that expects a value. The
  constructor accepts each of the following registries, and in none of them the token
  of the valued option without a value throws "expected value". With a flag of the same
  full name \<open>x\<close> registered first, \<open>--x\<close> finds the flag and the call returns, at the
  end of the input and before a token that begins with \<open>-\<close>. With the full name
  \<open>a=b\<close>, \<open>--a=b\<close> is cut at the \<open>=\<close> and throws "unrecognized option '--a'". With
  the empty full name, or with the short name \<open>-\<close>, the token is \<open>--\<close>, the separator,
  and the call returns.
\<close>

theorem valued_option_not_found_counterexample:
  "new_ArgParser (m_available_options shadowed_parser) = Inr shadowed_parser \<and>
   shadowed_option \<in> set (m_available_options shadowed_parser) \<and>
   m_full_name shadowed_option = ''x'' \<and> m_expect_value shadowed_option \<and>
   parse shadowed_parser [''prog'', ''--x''] True =
     Inr (shadowed_parser\<lparr>m_options := [''x'' \<mapsto> []], m_executable_path := ''prog''\<rparr>) \<and>
   parse shadowed_parser [''prog'', ''--x'', ''-a''] True =
     Inr (shadowed_parser\<lparr>m_options := [''x'' \<mapsto> []], m_executable_path := ''prog''\<rparr>) \<and>
   new_ArgParser [equals_option] = Inr equals_parser \<and>
   m_full_name equals_option = ''a=b'' \<and> m_expect_value equals_option \<and>
   parse equals_parser [''prog'', ''--a=b''] True = Inl (UnrecognizedLongOption ''a'') \<and>
   new_ArgParser [unnamed_option] = Inr unnamed_parser \<and>
   m_full_name unnamed_option = [] \<and> m_expect_value unnamed_option \<and>
   parse unnamed_parser [''prog'', ''--''] True =
     Inr (unnamed_parser\<lparr>m_executable_path := ''prog''\<rparr>) \<and>
   new_ArgParser [dash_option] = Inr dash_parser \<and>
   m_short_name dash_option = CHR ''-'' \<and> m_expect_value dash_option \<and>
   parse dash_parser [''prog'', ''--''] True =
     Inr (dash_parser\<lparr>m_executable_path := ''prog''\<rparr>)"
  by (simp add: new_ArgParser_def parse_def parse_step_def store_def strchr_def Let_def NUL_def
      shadowed_parser_def shadowed_option_def equals_parser_def equals_option_def
      unnamed_parser_def unnamed_option_def dash_parser_def dash_option_def OptionDef_def)

section \<open>Short options\<close>

lemma parse_step_short_extra:
  "c \<noteq> CHR ''-'' \<Longrightarrow>
   parse_step os acc p (CHR ''-'' # c # extra) rest = parse_step os acc p [CHR ''-'', c] rest"
  by (simp add: parse_step_def)

text \<open>
  Claim C9. Let the loop reach, after a prefix \<open>pre\<close> handled without error, a token
  that begins with \<open>-\<close> and whose second character \<open>c\<close> is not \<open>-\<close>. Whatever
  characters \<open>extra\<close> follow the second one, the call behaves as on the two-character
  token \<open>-c\<close>: the same result (the same error, or the same option table, positional
  and remaining arguments), and the same class for every token. The claim's case is
  \<open>c\<close> other than the terminator; the statement needs no such restriction.
\<close>

theorem short_option_ignores_trailing_characters:
  assumes "parse p (executable # pre) acc = Inr p'"
    and "acc \<longrightarrow> ''--'' \<notin> set pre"
    and "\<forall>t \<in> set pre. c_string t"
    and "c \<noteq> CHR ''-''"
  shows "parse p (executable # pre @ (CHR ''-'' # c # extra) # rest) acc =
           parse p (executable # pre @ [CHR ''-'', c] # rest) acc \<and>
         parse_classes p (executable # pre @ (CHR ''-'' # c # extra) # rest) acc =
           parse_classes p (executable # pre @ [CHR ''-'', c] # rest) acc"
proof -
  from parse_classes_after_prefix [OF assms(1,2,3)] obtain cs where
    cs: "\<And>post. parse_classes p (executable # pre @ post) acc =
      (case token_classes (m_available_options p) acc p' post of
         Inl e \<Rightarrow> Inl e | Inr ds \<Rightarrow> Inr (cs @ ds))"
    by blast
  note step = parse_step_short_extra [OF assms(4), of "m_available_options p" acc p' extra rest]
  have "token_classes (m_available_options p) acc p' ((CHR ''-'' # c # extra) # rest) =
      token_classes (m_available_options p) acc p' ([CHR ''-'', c] # rest)"
    using step by (simp split: sum.splits step.splits)
  then have "parse_classes p (executable # pre @ (CHR ''-'' # c # extra) # rest) acc =
           parse_classes p (executable # pre @ [CHR ''-'', c] # rest) acc"
    by (simp only: cs)
  moreover have "parse_loop (m_available_options p) acc p' ((CHR ''-'' # c # extra) # rest) =
      parse_loop (m_available_options p) acc p' ([CHR ''-'', c] # rest)"
    using step by simp
  then have "parse p (executable # pre @ (CHR ''-'' # c # extra) # rest) acc =
           parse p (executable # pre @ [CHR ''-'', c] # rest) acc"
    by (simp only: parse_after_prefix [OF assms(1,2,3)])
  ultimately show ?thesis by simp
qed

lemma short_o_parse:
  "parse example_parser [''prog'', ''file1'', ''-o'', ''x''] True =
     Inr (example_parser\<lparr>m_options := [''output'' \<mapsto> ''x''], m_arguments := [''file1''],
            m_executable_path := ''prog''\<rparr>)"
  by (simp add: eval_defs)

theorem short_option_ignores_trailing_characters_witness:
  "parse example_parser [''prog'', ''file1'', ''-out'', ''x''] True =
     Inr (example_parser\<lparr>m_options := [''output'' \<mapsto> ''x''], m_arguments := [''file1''],
            m_executable_path := ''prog''\<rparr>)"
proof -
  have a: "True \<longrightarrow> ''--'' \<notin> set [''file1'']" by simp
  have b: "\<forall>t \<in> set [''file1'']. c_string t" by (simp add: c_string_def NUL_def)
  have c: "CHR ''o'' \<noteq> CHR ''-''" by simp
  from short_option_ignores_trailing_characters [OF file1_parse a b c, of "''ut''" "[''x'']"]
    short_o_parse
  show ?thesis by simp
qed

section \<open>A single dash\<close>

text \<open>
  Claim C8 says that the token \<open>-\<close> is appended to the positional arguments. The loop
  sends every token that begins with \<open>-\<close> to the option branch; for the token \<open>-\<close> the
  second character read there is the string terminator, which is looked up as a short
  name. With the example registry the call \<open>prog -\<close> throws "unrecognized option" for
  the terminator character, and nothing is appended to \<open>m_arguments\<close>. The long branch
  tests the terminator (\<open>argv[i][2] == 0\<close>) before it reads a name; the short branch
  does not.
\<close>

theorem single_dash_is_looked_up_as_short_option:
  "parse example_parser [''prog'', ''-''] True = Inl (UnrecognizedShortOption NUL) \<and>
   parse example_parser [''prog'', ''file1'', ''-'', ''file2''] True =
     Inl (UnrecognizedShortOption NUL)"
  by (simp add: eval_defs)

section \<open>Attached and next-token values\<close>

lemma parse_step_long_attached:
  assumes "find (\<lambda>option. m_full_name option = name) os = Some d" "m_expect_value d"
    and "name \<noteq> []" "c_string name" "CHR ''='' \<notin> set name"
  shows "parse_step os acc p (''--'' @ name @ ''='' @ v) rest = Inr (Continue (store p d v) rest)"
proof -
  from assms(3,4) obtain x xs where n: "name = x # xs" "x \<noteq> NUL"
    by (cases name) (auto simp: c_string_def)
  have s: "strchr (name @ CHR ''='' # v) (CHR ''='') = Some (length name)"
    by (rule strchr_Some [OF assms(5)])
  have "char_at (''--'' @ name @ ''='' @ v) 2 \<noteq> NUL"
    using n by simp
  then show ?thesis
    using assms(1,2) s by (simp add: parse_step_def Let_def)
qed

lemma parse_step_long_next:
  assumes "find (\<lambda>option. m_full_name option = name) os = Some d" "m_expect_value d"
    and "name \<noteq> []" "c_string name" "CHR ''='' \<notin> set name"
    and "char_at v 0 \<noteq> CHR ''-''"
  shows "parse_step os acc p (''--'' @ name) (v # rest) = Inr (Continue (store p d v) rest)"
  using assms name_starts [OF assms(3,4)]
  by (simp add: parse_step_def strchr_None Let_def)

text \<open>
  Claim C3, amended. Let \<open>name\<close> be a non-empty name without \<open>=\<close> whose lookup by
  full name finds a definition \<open>d\<close> that expects a value, and let \<open>v\<close> not begin with
  \<open>-\<close>. At any position the loop reaches, the token \<open>--name=v\<close> and the two tokens
  \<open>--name v\<close> are interchangeable: \<open>parse\<close> gives the same result whatever follows.
  When nothing follows, both calls succeed with the tables of the prefix and \<open>v\<close>
  stored under the key \<open>name\<close>.
\<close>

theorem attached_and_next_token_value_agree:
  assumes "parse p (executable # pre) acc = Inr p'"
    and "acc \<longrightarrow> ''--'' \<notin> set pre"
    and "\<forall>t \<in> set pre. c_string t"
    and "find (\<lambda>option. m_full_name option = name) (m_available_options p) = Some d"
    and "m_expect_value d"
    and "name \<noteq> []" and "c_string name" and "CHR ''='' \<notin> set name"
    and "char_at v 0 \<noteq> CHR ''-''"
  shows "parse p (executable # pre @ (''--'' @ name @ ''='' @ v) # rest) acc =
           parse p (executable # pre @ (''--'' @ name) # v # rest) acc \<and>
         parse p (executable # pre @ [''--'' @ name @ ''='' @ v]) acc = Inr (store p' d v) \<and>
         parse p (executable # pre @ [''--'' @ name, v]) acc = Inr (store p' d v) \<and>
         m_options (store p' d v) name = Some v"
proof -
  note a = parse_step_long_attached [OF assms(4,5,6,7,8), of acc p' v]
  note n = parse_step_long_next [OF assms(4,5,6,7,8,9), of acc p']
  note pre = parse_after_prefix [OF assms(1,2,3)]
  have 1: "parse p (executable # pre @ (''--'' @ name @ ''='' @ v) # rest) acc =
           parse p (executable # pre @ (''--'' @ name) # v # rest) acc"
    using a [of rest] n [of rest] by (simp add: pre)
  have 2: "parse p (executable # pre @ [''--'' @ name @ ''='' @ v]) acc = Inr (store p' d v)"
    using a [of "[]"] by (simp add: pre)
  have 3: "parse p (executable # pre @ [''--'' @ name, v]) acc = Inr (store p' d v)"
    using n [of "[]"] by (simp add: pre)
  from assms(4) have "m_full_name d = name" by (auto simp: find_Some_iff)
  then have 4: "m_options (store p' d v) name = Some v" by (simp add: store_def)
  from 1 2 3 4 show ?thesis by simp
qed

theorem attached_and_next_token_value_agree_witness:
  "parse example_parser [''prog'', ''file1'', ''--output=out.txt''] True =
     Inr (store (example_parser\<lparr>m_arguments := [''file1''], m_executable_path := ''prog''\<rparr>)
            output_option ''out.txt'') \<and>
   parse example_parser [''prog'', ''file1'', ''--output'', ''out.txt''] True =
     Inr (store (example_parser\<lparr>m_arguments := [''file1''], m_executable_path := ''prog''\<rparr>)
            output_option ''out.txt'') \<and>
   m_options (store (example_parser\<lparr>m_arguments := [''file1''], m_executable_path := ''prog''\<rparr>)
                output_option ''out.txt'') ''output'' = Some ''out.txt''"
proof -
  have a: "True \<longrightarrow> ''--'' \<notin> set [''file1'']" by simp
  have b: "\<forall>t \<in> set [''file1'']. c_string t" by (simp add: c_string_def NUL_def)
  have f: "find (\<lambda>option. m_full_name option = ''output'') (m_available_options example_parser) =
      Some output_option"
    by (simp add: output_option_def example_parser_def example_options_def OptionDef_def)
  have e: "m_expect_value output_option" by (simp add: output_option_def OptionDef_def)
  have n: "''output'' \<noteq> []" "c_string ''output''" "CHR ''='' \<notin> set ''output''"
    by (simp_all add: c_string_def NUL_def)
  have v: "char_at ''out.txt'' 0 \<noteq> CHR ''-''" by simp
  from attached_and_next_token_value_agree [OF file1_parse a b f e n v, of "[]"]
  show ?thesis by simp
qed

text \<open>
  Claim C3 as stated covers every registered name. A registry may hold the full name
  \<open>a=b\<close> for an option that expects a value. The long branch cuts the token at its
  first \<open>=\<close>, so that both \<open>--a=b=v\<close> and \<open>--a=b v\<close> look up \<open>a\<close> and throw
  "unrecognized option '--a'": nothing is stored under the key \<open>a=b\<close>.
\<close>

theorem name_with_equals_sign_counterexample:
  "new_ArgParser [equals_option] = Inr equals_parser \<and>
   m_full_name equals_option = ''a=b'' \<and> m_expect_value equals_option \<and>
   char_at ''v'' 0 \<noteq> CHR ''-'' \<and>
   parse equals_parser [''prog'', ''--'' @ ''a=b'' @ ''='' @ ''v''] True =
     Inl (UnrecognizedLongOption ''a'') \<and>
   parse equals_parser [''prog'', ''--'' @ ''a=b'', ''v''] True =
     Inl (UnrecognizedLongOption ''a'')"
  by (simp add: new_ArgParser_def parse_def parse_step_def strchr_def Let_def NUL_def
      equals_parser_def equals_option_def OptionDef_def)

section \<open>Typed access to stored values\<close>

lemma digit_char_cases:
  "k < 10 \<Longrightarrow> is_digit (digit_char k) \<and> digit_value (digit_char k) = k"
proof -
  assume "k < 10"
  then consider "k = 0" | "k = 1" | "k = 2" | "k = 3" | "k = 4" | "k = 5" | "k = 6" | "k = 7"
    | "k = 8" | "k = 9"
    by atomize_elim arith
  then show ?thesis
    by cases (simp_all add: digit_char_def is_digit_def digit_value_def)
qed

lemma decimal_snoc: "decimal (ds @ [c]) = 10 * decimal ds + digit_value c"
  by (simp add: decimal_def)

lemma show_nat_digits: "list_all is_digit (show_nat n) \<and> show_nat n \<noteq> []"
proof (induction n rule: show_nat.induct)
  case (1 n)
  show ?case
  proof (cases "n < 10")
    case True
    then show ?thesis using digit_char_cases [of n] by simp
  next
    case False
    have "n mod 10 < 10" by simp
    from digit_char_cases [OF this] False 1 show ?thesis
      by (subst show_nat.simps, subst (2) show_nat.simps) simp
  qed
qed

lemma decimal_show_nat: "decimal (show_nat n) = n"
proof (induction n rule: show_nat.induct)
  case (1 n)
  show ?case
  proof (cases "n < 10")
    case True
    then show ?thesis using digit_char_cases [of n] by (simp add: decimal_def)
  next
    case False
    have "n mod 10 < 10" by simp
    from digit_char_cases [OF this] False 1
    have "decimal (show_nat (n div 10) @ [digit_char (n mod 10)]) = n"
      by (simp add: decimal_snoc del: show_nat.simps)
    with False show ?thesis by (subst show_nat.simps) simp
  qed
qed

lemma is_digit_NUL [simp]: "\<not> is_digit NUL"
  by (simp add: is_digit_def NUL_def)

lemma is_digit_minus [simp]: "\<not> is_digit (CHR ''-'')"
  by (simp add: is_digit_def)

lemma char_at_drop: "char_at (drop k s) j = char_at s (k + j)"
  by (auto simp: char_at_def)

lemma takeWhile_digit_Nil: "takeWhile is_digit s = [] \<longleftrightarrow> \<not> is_digit (char_at s 0)"
  by (cases s) auto

lemma takeWhile_digits: "digits ds \<Longrightarrow> takeWhile is_digit ds = ds \<and> ds \<noteq> []"
  by (simp add: digits_def list_all_iff)

lemma from_chars_minus:
  "is_signed ty \<Longrightarrow> char_at s 0 = CHR ''-'' \<Longrightarrow>
   from_chars ty s v =
     (if takeWhile is_digit (drop 1 s) = [] then (v, invalid_argument)
      else if type_min ty \<le> - int (decimal (takeWhile is_digit (drop 1 s))) \<and>
              - int (decimal (takeWhile is_digit (drop 1 s))) \<le> type_max ty
           then (- int (decimal (takeWhile is_digit (drop 1 s))), errc_none)
           else (v, result_out_of_range))"
  by (simp add: from_chars_def Let_def)

lemma from_chars_plain:
  "\<not> is_signed ty \<or> char_at s 0 \<noteq> CHR ''-'' \<Longrightarrow>
   from_chars ty s v =
     (if takeWhile is_digit s = [] then (v, invalid_argument)
      else if type_min ty \<le> int (decimal (takeWhile is_digit s)) \<and>
              int (decimal (takeWhile is_digit s)) \<le> type_max ty
           then (int (decimal (takeWhile is_digit s)), errc_none)
           else (v, result_out_of_range))"
  by (auto simp: from_chars_def Let_def)

lemma from_chars_invalid:
  "snd (from_chars ty s v) = invalid_argument \<longleftrightarrow> \<not> starts_number ty s"
proof (cases "is_signed ty \<and> char_at s 0 = CHR ''-''")
  case True
  then have "takeWhile is_digit (drop 1 s) = [] \<longleftrightarrow> \<not> starts_number ty s"
    by (simp add: takeWhile_digit_Nil char_at_drop starts_number_def)
  moreover from True have "snd (from_chars ty s v) = invalid_argument \<longleftrightarrow>
      takeWhile is_digit (drop 1 s) = []"
    by (simp add: from_chars_minus)
  ultimately show ?thesis by simp
next
  case False
  then have "takeWhile is_digit s = [] \<longleftrightarrow> \<not> starts_number ty s"
    by (auto simp: takeWhile_digit_Nil starts_number_def)
  moreover from False have "snd (from_chars ty s v) = invalid_argument \<longleftrightarrow>
      takeWhile is_digit s = []"
    by (subst from_chars_plain) auto
  ultimately show ?thesis by simp
qed

lemma from_chars_literal:
  assumes "literal s" and "char_at s 0 = CHR ''-'' \<longrightarrow> is_signed ty"
  shows "from_chars ty s v =
    (if type_min ty \<le> literal_value s \<and> literal_value s \<le> type_max ty
     then (literal_value s, errc_none) else (v, result_out_of_range))"
proof (cases "char_at s 0 = CHR ''-''")
  case True
  with assms have "digits (drop 1 s)" and sg: "is_signed ty" by (simp_all add: literal_def)
  from takeWhile_digits [OF this(1)]
  have tw: "takeWhile is_digit (drop 1 s) = drop 1 s" "drop 1 s \<noteq> []" by simp_all
  have lv: "literal_value s = - int (decimal (drop 1 s))"
    using True by (simp add: literal_value_def)
  show ?thesis
    by (simp only: from_chars_minus [OF sg True] tw lv if_False)
next
  case False
  with assms have "digits s" by (simp add: literal_def)
  from takeWhile_digits [OF this]
  have tw: "takeWhile is_digit s = s" "s \<noteq> []" by simp_all
  have lv: "literal_value s = int (decimal s)"
    using False by (simp add: literal_value_def)
  from False have "\<not> is_signed ty \<or> char_at s 0 \<noteq> CHR ''-''" by simp
  from from_chars_plain [OF this] show ?thesis
    by (simp only: tw lv if_False)
qed

lemma literal_show_int: "literal (show_int n) \<and> literal_value (show_int n) = n"
proof (cases "n < 0")
  case True
  then show ?thesis
    using show_nat_digits [of "nat (- n)"] decimal_show_nat [of "nat (- n)"]
    by (simp add: show_int_def literal_def literal_value_def digits_def del: show_nat.simps)
next
  case False
  obtain x xs where x: "show_nat (nat n) = x # xs"
    using show_nat_digits [of "nat n"] by (cases "show_nat (nat n)") auto
  with show_nat_digits [of "nat n"] have "is_digit x" by simp
  then have "x \<noteq> CHR ''-''" by auto
  with False x show ?thesis
    using show_nat_digits [of "nat n"] decimal_show_nat [of "nat n"]
    by (simp add: show_int_def literal_def literal_value_def digits_def del: show_nat.simps)
qed

lemma show_int_sign: "char_at (show_int n) 0 = CHR ''-'' \<longleftrightarrow> n < 0"
proof (cases "n < 0")
  case True
  then show ?thesis by (simp add: show_int_def del: show_nat.simps)
next
  case False
  obtain x xs where x: "show_nat (nat n) = x # xs"
    using show_nat_digits [of "nat n"] by (cases "show_nat (nat n)") auto
  with show_nat_digits [of "nat n"] have "is_digit x" by simp
  then have "x \<noteq> CHR ''-''" by auto
  with False x show ?thesis by (simp add: show_int_def del: show_nat.simps)
qed

lemma exists_as_string: "exists p ix \<longleftrightarrow> (\<exists>s. as_string p ix = Inr s)"
  by (cases ix) (auto split: option.splits)

lemma as_integer_of_string:
  "as_string p ix = Inr s \<Longrightarrow>
   as_integer ty p ix =
     (if snd (from_chars ty s 0) = invalid_argument then Inl (NotNumeric s)
      else Inr (fst (from_chars ty s 0)))"
  by (simp add: as_integer_def split: prod.splits)

lemmas stored_defs = stored_def int32_def uint32_def type_min_def type_max_def OptionDef_def

lemmas number_defs = as_integer_def from_chars_def decimal_def digit_value_def is_digit_def
  literal_def literal_value_def digits_def starts_number_def Let_def NUL_def

lemma stored_parse: "parse (stored []) [''prog'', ''--count='' @ v] acc = Inr (stored v)"
proof -
  have f: "find (\<lambda>option. m_full_name option = ''count'') (m_available_options (stored [])) =
      Some (OptionDef ''count'' (CHR ''c'') [] True)"
    by (simp add: stored_def OptionDef_def)
  have e: "m_expect_value (OptionDef ''count'' (CHR ''c'') [] True)"
    by (simp add: OptionDef_def)
  have n: "''count'' \<noteq> []" "c_string ''count''" "CHR ''='' \<notin> set ''count''"
    by (simp_all add: c_string_def NUL_def)
  from parse_step_long_attached [OF f e n, of acc _ v "[]"] show ?thesis
    by (simp add: parse_def stored_def store_def OptionDef_def)
qed

text \<open>
  Claim C6, amended. Let the key exist with stored string \<open>s\<close>. If \<open>s\<close> does not begin
  with a number of the requested type (a digit, or for a signed type \<open>-\<close> followed by a
  digit), \<open>as<Integer>()\<close> throws "s is not a valid numeric value". If \<open>s\<close> as a whole is a
  base-10 integer (digits, after \<open>-\<close> for a signed type only) whose value is in the range
  of the type, \<open>as<Integer>()\<close> returns that value; in particular it returns \<open>n\<close> for the
  decimal notation of every \<open>n\<close> of the type. Strings that begin with a number and
  continue otherwise, and numbers out of range, are not covered.
\<close>

theorem as_integer_checks_leading_number:
  assumes "as_string p ix = Inr s"
  shows "(\<not> starts_number ty s \<longrightarrow> as_integer ty p ix = Inl (NotNumeric s)) \<and>
         (literal s \<and> (char_at s 0 = CHR ''-'' \<longrightarrow> is_signed ty) \<and>
          type_min ty \<le> literal_value s \<and> literal_value s \<le> type_max ty \<longrightarrow>
            as_integer ty p ix = Inr (literal_value s)) \<and>
         (s = show_int n \<and> type_min ty \<le> n \<and> n \<le> type_max ty \<longrightarrow>
            as_integer ty p ix = Inr n)"
proof (intro conjI impI)
  assume "\<not> starts_number ty s"
  then show "as_integer ty p ix = Inl (NotNumeric s)"
    by (simp add: as_integer_of_string [OF assms] from_chars_invalid)
next
  assume a: "literal s \<and> (char_at s 0 = CHR ''-'' \<longrightarrow> is_signed ty) \<and>
          type_min ty \<le> literal_value s \<and> literal_value s \<le> type_max ty"
  then have "from_chars ty s 0 = (literal_value s, errc_none)"
    by (simp add: from_chars_literal)
  then show "as_integer ty p ix = Inr (literal_value s)"
    by (simp add: as_integer_of_string [OF assms])
next
  assume a: "s = show_int n \<and> type_min ty \<le> n \<and> n \<le> type_max ty"
  have "char_at s 0 = CHR ''-'' \<longrightarrow> is_signed ty"
  proof
    assume "char_at s 0 = CHR ''-''"
    with a have "n < 0" by (simp add: show_int_sign)
    with a show "is_signed ty" by (auto simp: type_min_def split: if_splits)
  qed
  with a literal_show_int [of n] have "from_chars ty s 0 = (n, errc_none)"
    by (simp add: from_chars_literal)
  then show "as_integer ty p ix = Inr n"
    by (simp add: as_integer_of_string [OF assms])
qed

theorem as_integer_checks_leading_number_witness:
  "parse (stored []) [''prog'', ''--count=42''] True = Inr (stored ''42'') \<and>
   as_integer int32 (stored ''42'') (Name ''count'') = Inr 42 \<and>
   parse (stored []) [''prog'', ''--count=abc''] True = Inr (stored ''abc'') \<and>
   as_integer int32 (stored ''abc'') (Name ''count'') = Inl (NotNumeric ''abc'')"
proof -
  have s1: "as_string (stored ''42'') (Name ''count'') = Inr ''42''" by (simp add: stored_def)
  have s2: "as_string (stored ''abc'') (Name ''count'') = Inr ''abc''" by (simp add: stored_def)
  have l: "literal ''42'' \<and> (char_at ''42'' 0 = CHR ''-'' \<longrightarrow> is_signed int32) \<and>
      type_min int32 \<le> literal_value ''42'' \<and> literal_value ''42'' \<le> type_max int32"
    by (simp add: number_defs stored_defs)
  have v: "literal_value ''42'' = 42" by (simp add: number_defs)
  have n: "\<not> starts_number int32 ''abc''" by (simp add: number_defs stored_defs)
  from as_integer_checks_leading_number [OF s1, of int32 0] l v
  have 1: "as_integer int32 (stored ''42'') (Name ''count'') = Inr 42" by simp
  from as_integer_checks_leading_number [OF s2, of int32 0] n
  have 2: "as_integer int32 (stored ''abc'') (Name ''count'') = Inl (NotNumeric ''abc'')" by simp
  from 1 2 stored_parse [of "''42''" True] stored_parse [of "''abc''" True] show ?thesis by simp
qed

text \<open>
  Claim C6 as stated makes every stored string that is not a valid integer of the
  requested type fail. The string \<open>42abc\<close> is not an integer, and \<open>as<int>()\<close> returns
  42 for it: \<open>std::from_chars\<close> converts the leading digits, and \<open>as\<close> does not compare
  the end of the match with the end of the string. The string \<open>99999999999\<close> is not a
  32-bit integer, and \<open>as<int>()\<close> returns 0 for it: \<open>result_out_of_range\<close> is not
  checked.
\<close>

theorem invalid_integer_accepted_counterexample:
  "parse (stored []) [''prog'', ''--count=42abc''] True = Inr (stored ''42abc'') \<and>
   as_string (stored ''42abc'') (Name ''count'') = Inr ''42abc'' \<and>
   \<not> literal ''42abc'' \<and>
   as_integer int32 (stored ''42abc'') (Name ''count'') = Inr 42 \<and>
   as_string (stored ''99999999999'') (Name ''count'') = Inr ''99999999999'' \<and>
   type_max int32 < literal_value ''99999999999'' \<and>
   as_integer int32 (stored ''99999999999'') (Name ''count'') = Inr 0"
  using stored_parse [of "''42abc''" True]
  by (simp add: number_defs stored_defs)

text \<open>
  Claim C10, amended. Let the key exist with a stored string that as a whole is a base-10
  integer in the form the conversion accepts for the requested type: digits, preceded by
  \<open>-\<close> only when the type is signed. If its value is outside the range of the type,
  \<open>as<Integer>()\<close> does not fail and returns 0.
\<close>

theorem out_of_range_yields_zero:
  assumes "as_string p ix = Inr s"
    and "literal s"
    and "char_at s 0 = CHR ''-'' \<longrightarrow> is_signed ty"
    and "literal_value s < type_min ty \<or> type_max ty < literal_value s"
  shows "as_integer ty p ix = Inr 0"
proof -
  from assms(4) have "\<not> (type_min ty \<le> literal_value s \<and> literal_value s \<le> type_max ty)"
    by auto
  with from_chars_literal [OF assms(2,3), of 0]
  have "from_chars ty s 0 = (0, result_out_of_range)" by simp
  then show ?thesis by (simp add: as_integer_of_string [OF assms(1)])
qed

theorem out_of_range_yields_zero_witness:
  "parse (stored []) [''prog'', ''--count=99999999999''] True = Inr (stored ''99999999999'') \<and>
   literal_value ''99999999999'' = 99999999999 \<and> type_max int32 = 2147483647 \<and>
   as_integer int32 (stored ''99999999999'') (Name ''count'') = Inr 0"
proof -
  have s: "as_string (stored ''99999999999'') (Name ''count'') = Inr ''99999999999''"
    by (simp add: stored_def)
  have l: "literal ''99999999999''" by (simp add: number_defs)
  have g: "char_at ''99999999999'' 0 = CHR ''-'' \<longrightarrow> is_signed int32" by simp
  have v: "literal_value ''99999999999'' = 99999999999" by (simp add: number_defs)
  have m: "type_max int32 = 2147483647" by (simp add: stored_defs)
  from v m have r: "literal_value ''99999999999'' < type_min int32 \<or>
      type_max int32 < literal_value ''99999999999''" by simp
  from out_of_range_yields_zero [OF s l g r] v m stored_parse [of "''99999999999''" True]
  show ?thesis by simp
qed

text \<open>
  Claim C10 as stated covers every integer literal that does not fit. For an unsigned type
  the literal \<open>-5\<close> does not fit, and \<open>as<unsigned>()\<close> throws "-5 is not a valid numeric
  value" instead of returning 0: \<open>std::from_chars\<close> accepts a minus sign for signed types
  only and reports \<open>invalid_argument\<close>.
\<close>

theorem negative_for_unsigned_counterexample:
  "parse (stored []) [''prog'', ''--count=-5''] True = Inr (stored ''-5'') \<and>
   as_string (stored ''-5'') (Name ''count'') = Inr ''-5'' \<and>
   literal ''-5'' \<and> literal_value ''-5'' = - 5 \<and> type_min uint32 = 0 \<and>
   as_integer uint32 (stored ''-5'') (Name ''count'') = Inl (NotNumeric ''-5'')"
  using stored_parse [of "''-5''" True]
  by (simp add: number_defs stored_defs)

text \<open>
  Claim C7, amended. \<open>as(default_value)\<close> returns the default value when \<open>exists()\<close> is
  false and \<open>as<T>()\<close> when \<open>exists()\<close> is true. It never fails for an absent key, nor
  for a string or boolean type. It fails exactly when the requested type is an integer
  type, the key exists and its stored string does not begin with a number of that type:
  then \<open>as<Integer>()\<close> throws "s is not a valid numeric value" out of it.
\<close>

theorem as_default_fails_only_on_stored_non_numbers:
  "(\<not> exists p ix \<longrightarrow> as_default p ix dv = Inr dv) \<and>
   (exists p ix \<longrightarrow> as_default p ix dv = as_type (type_of dv) p ix) \<and>
   (type_of dv = StringType \<or> type_of dv = BoolType \<longrightarrow> (\<exists>v. as_default p ix dv = Inr v)) \<and>
   (as_default p ix dv = Inl e \<longleftrightarrow>
      (\<exists>ty s. type_of dv = IntegerType ty \<and> as_string p ix = Inr s \<and>
         \<not> starts_number ty s \<and> e = NotNumeric s))"
proof (intro conjI impI)
  show "as_default p ix dv = Inr dv" if "\<not> exists p ix"
    using that by (simp add: as_default_def)
  show "as_default p ix dv = as_type (type_of dv) p ix" if "exists p ix"
    using that by (simp add: as_default_def)
  show "\<exists>v. as_default p ix dv = Inr v" if "type_of dv = StringType \<or> type_of dv = BoolType"
  proof (cases "exists p ix")
    case True
    then obtain s where "as_string p ix = Inr s" by (auto simp: exists_as_string)
    with that True show ?thesis by (auto simp: as_default_def)
  next
    case False
    then show ?thesis by (simp add: as_default_def)
  qed
  show "as_default p ix dv = Inl e \<longleftrightarrow>
      (\<exists>ty s. type_of dv = IntegerType ty \<and> as_string p ix = Inr s \<and>
         \<not> starts_number ty s \<and> e = NotNumeric s)"
  proof (cases "exists p ix")
    case False
    then have "\<And>s. as_string p ix \<noteq> Inr s" by (simp add: exists_as_string)
    with False show ?thesis by (simp add: as_default_def)
  next
    case True
    then obtain s where s: "as_string p ix = Inr s" by (auto simp: exists_as_string)
    show ?thesis
    proof (cases dv)
      case (StringValue x)
      with True s show ?thesis by (simp add: as_default_def)
    next
      case (BoolValue b)
      with True s show ?thesis by (simp add: as_default_def)
    next
      case (IntegerValue ty n)
      with True s show ?thesis
        by (auto simp: as_default_def as_integer_of_string [OF s] from_chars_invalid)
    qed
  qed
qed

theorem as_default_fails_only_on_stored_non_numbers_witness:
  "\<not> exists (stored ''42'') (Name ''level'') \<and>
   as_default (stored ''42'') (Name ''level'') (IntegerValue int32 7) = Inr (IntegerValue int32 7) \<and>
   \<not> exists (stored ''42'') (Position 0) \<and>
   as_default (stored ''42'') (Position 0) (StringValue ''none'') = Inr (StringValue ''none'') \<and>
   exists (stored ''42'') (Name ''count'') \<and>
   as_default (stored ''42'') (Name ''count'') (IntegerValue int32 7) = Inr (IntegerValue int32 42) \<and>
   as_default (stored ''42'') (Name ''count'') (StringValue ''none'') = Inr (StringValue ''42'') \<and>
   as_default (stored ''42'') (Name ''count'') (BoolValue False) = Inr (BoolValue True)"
proof -
  have a: "\<not> exists (stored ''42'') (Name ''level'')" "\<not> exists (stored ''42'') (Position 0)"
    "exists (stored ''42'') (Name ''count'')"
    by (simp_all add: stored_def)
  have i: "as_type (IntegerType int32) (stored ''42'') (Name ''count'') = Inr (IntegerValue int32 42)"
    by (simp add: number_defs stored_defs)
  have s: "as_type StringType (stored ''42'') (Name ''count'') = Inr (StringValue ''42'')"
    by (simp add: stored_def)
  have b: "as_type BoolType (stored ''42'') (Name ''count'') = Inr (BoolValue True)"
    by (simp add: stored_def as_bool_def)
  from as_default_fails_only_on_stored_non_numbers [of "stored ''42''" "Name ''level''" "IntegerValue int32 7"]
    as_default_fails_only_on_stored_non_numbers [of "stored ''42''" "Position 0" "StringValue ''none''"]
    as_default_fails_only_on_stored_non_numbers [of "stored ''42''" "Name ''count''" "IntegerValue int32 7"]
    as_default_fails_only_on_stored_non_numbers [of "stored ''42''" "Name ''count''" "StringValue ''none''"]
    as_default_fails_only_on_stored_non_numbers [of "stored ''42''" "Name ''count''" "BoolValue False"]
    a i s b
  show ?thesis by simp
qed

text \<open>
  Claim C7 as stated lets the defaulted accessor never fail. After \<open>prog --count=abc\<close>
  the key \<open>count\<close> exists, and \<open>as(7)\<close> throws "abc is not a valid numeric value".
\<close>

theorem defaulted_access_counterexample:
  "parse (stored []) [''prog'', ''--count=abc''] True = Inr (stored ''abc'') \<and>
   exists (stored ''abc'') (Name ''count'') \<and>
   as_default (stored ''abc'') (Name ''count'') (IntegerValue int32 7) = Inl (NotNumeric ''abc'')"
  using stored_parse [of "''abc''" True]
  by (simp add: as_default_def number_defs stored_defs)

section \<open>Every token is counted once\<close>

lemma parse_step_option:
  "parse_step os acc p tok rest = Inr (Continue q rest') \<Longrightarrow> char_at tok 0 = CHR ''-'' \<Longrightarrow>
   \<exists>d. looked_up os tok = Some d \<and>
     ((rest' = rest \<and> q = store p d (own_value d tok)) \<or>
      (\<exists>v. rest = v # rest' \<and> char_at v 0 \<noteq> CHR ''-'' \<and> q = store p d v))"
  by (auto simp: parse_step_def looked_up_def attached_def own_value_def Let_def
      split: if_splits option.splits list.splits)

lemma token_classes_head:
  "token_classes os acc p toks = Inr cs \<Longrightarrow> next_value toks cs = None"
  by (cases toks) (auto simp: next_value_def split: sum.splits step.splits if_splits)

lemma follows_replicate_Remaining:
  "prev = Separator \<or> prev = Remaining \<Longrightarrow> follows prev (replicate n Remaining)"
  by (induction n arbitrary: prev) auto

lemma follows_token_classes:
  "token_classes os acc p toks = Inr cs \<Longrightarrow> prev \<noteq> Separator \<Longrightarrow> prev \<noteq> Remaining \<Longrightarrow>
   follows prev cs"
proof (induction os acc p toks arbitrary: cs prev rule: token_classes.induct)
  case (1 os acc p)
  then show ?case by simp
next
  case (2 os acc p tok rest)
  show ?case
  proof (cases "parse_step os acc p tok rest")
    case (Inl e)
    with "2.prems" show ?thesis by simp
  next
    case (Inr s)
    show ?thesis
    proof (cases s)
      case (Break q)
      with Inr "2.prems" have "cs = Separator # replicate (length rest) Remaining" by simp
      with "2.prems" show ?thesis by (simp add: follows_replicate_Remaining)
    next
      case (Continue q rest')
      with Inr have st: "parse_step os acc p tok rest = Inr (Continue q rest')" by simp
      from st "2.prems"(1) obtain cs' where cs': "token_classes os acc q rest' = Inr cs'"
        and cs: "cs = (if char_at tok 0 = CHR ''-''
                     then OptionToken # replicate (length rest - length rest') OptionValue
                     else [Positional]) @ cs'"
        by (auto split: sum.splits)
      note ih = "2.IH" [OF st refl cs']
      from parse_step_Continue [OF st] consider
        (positional) "char_at tok 0 \<noteq> CHR ''-''"
        | (flag) "char_at tok 0 = CHR ''-''" "rest' = rest"
        | (valued) v where "char_at tok 0 = CHR ''-''" "rest = v # rest'"
        by blast
      then show ?thesis
      proof cases
        case positional
        with cs ih [of Positional] "2.prems" show ?thesis by simp
      next
        case flag
        with cs ih [of OptionToken] "2.prems" show ?thesis by simp
      next
        case valued
        with cs ih [of OptionValue] "2.prems" show ?thesis by simp
      qed
    qed
  qed
qed

lemma recorded_no_options:
  "OptionToken \<notin> set cs \<Longrightarrow> recorded os toks cs = []"
  by (induction os toks cs rule: recorded.induct) auto

lemma record_all_Nil [simp]: "record_all m [] = m"
  by (simp add: record_all_def)

lemma record_all_Cons [simp]: "record_all m ((k, v) # kvs) = record_all (m(k \<mapsto> v)) kvs"
  by (simp add: record_all_def)

lemma fits_replicate_Remaining: "list_all2 fits toks (replicate (length toks) Remaining)"
  by (induction toks) auto

lemma recorded_of_loop:
  "parse_loop os acc p toks = Inr p' \<Longrightarrow> token_classes os acc p toks = Inr cs \<Longrightarrow>
   m_options p' = record_all (m_options p) (recorded os toks cs) \<and> list_all2 fits toks cs"
proof (induction os acc p toks arbitrary: cs rule: parse_loop.induct)
  case (1 os acc p)
  then show ?case by simp
next
  case (2 os acc p tok rest)
  show ?case
  proof (cases "parse_step os acc p tok rest")
    case (Inl e)
    with "2.prems" show ?thesis by simp
  next
    case (Inr s)
    show ?thesis
    proof (cases s)
      case (Break q)
      with Inr have st: "parse_step os acc p tok rest = Inr (Break q)" by simp
      from st "2.prems" have cs: "cs = Separator # replicate (length rest) Remaining"
        and p': "p' = q" by simp_all
      from parse_step_Break [OF st] p' have "m_options p' = m_options p" "fits tok Separator"
        by simp_all
      with cs show ?thesis
        by (simp add: recorded_no_options fits_replicate_Remaining)
    next
      case (Continue q rest')
      with Inr have st: "parse_step os acc p tok rest = Inr (Continue q rest')" by simp
      from st "2.prems" have l: "parse_loop os acc q rest' = Inr p'" by simp
      from st "2.prems"(2) obtain cs' where cs': "token_classes os acc q rest' = Inr cs'"
        and cs: "cs = (if char_at tok 0 = CHR ''-''
                     then OptionToken # replicate (length rest - length rest') OptionValue
                     else [Positional]) @ cs'"
        by (auto split: sum.splits)
      from "2.IH" [OF st refl l cs']
      have ih: "m_options p' = record_all (m_options q) (recorded os rest' cs')"
        "list_all2 fits rest' cs'" by simp_all
      note nv = token_classes_head [OF cs']
      show ?thesis
      proof (cases "char_at tok 0 = CHR ''-''")
        case False
        with parse_step_Continue [OF st] have "rest' = rest" "m_options q = m_options p"
          by auto
        with False cs ih show ?thesis by simp
      next
        case True
        from parse_step_option [OF st True] obtain d where d: "looked_up os tok = Some d"
          and alt: "(rest' = rest \<and> q = store p d (own_value d tok)) \<or>
            (\<exists>v. rest = v # rest' \<and> char_at v 0 \<noteq> CHR ''-'' \<and> q = store p d v)"
          by blast
        from alt show ?thesis
        proof
          assume a: "rest' = rest \<and> q = store p d (own_value d tok)"
          with True cs have "cs = OptionToken # cs'" by simp
          with a d nv ih True show ?thesis by (simp add: store_def)
        next
          assume "\<exists>v. rest = v # rest' \<and> char_at v 0 \<noteq> CHR ''-'' \<and> q = store p d v"
          then obtain v where v: "rest = v # rest'" "char_at v 0 \<noteq> CHR ''-''" "q = store p d v"
            by blast
          with True cs have "cs = OptionToken # OptionValue # cs'" by simp
          with v d ih True show ?thesis by (simp add: store_def next_value_def)
        qed
      qed
    qed
  qed
qed

lemma option_part_Nil [simp]: "option_tokens [] cs = []" "option_tokens toks [] = []"
  "option_classes [] = []"
  by (simp_all add: option_tokens_def option_classes_def)

lemma option_part_Cons [simp]:
  "option_tokens (t # toks) (c # cs) =
     (if c = OptionToken \<or> c = OptionValue then t # option_tokens toks cs
      else option_tokens toks cs)"
  "option_classes (c # cs) =
     (if c = OptionToken \<or> c = OptionValue then c # option_classes cs else option_classes cs)"
  by (simp_all add: option_tokens_def option_classes_def)

lemma length_option_tokens:
  "length toks = length cs \<Longrightarrow>
   length (option_tokens toks cs) = count_class OptionToken cs + count_class OptionValue cs"
proof (induction toks arbitrary: cs)
  case Nil
  then show ?case by simp
next
  case (Cons t toks)
  then obtain d ds where "cs = d # ds" by (cases cs) auto
  with Cons show ?case by auto
qed

lemma option_part_head:
  "follows prev cs \<Longrightarrow> prev \<noteq> OptionToken \<Longrightarrow> length toks = length cs \<Longrightarrow>
   next_value (option_tokens toks cs) (option_classes cs) = None"
proof (induction cs arbitrary: toks prev)
  case Nil
  then show ?case by (simp add: next_value_def)
next
  case (Cons c cs)
  then obtain t ts where toks: "toks = t # ts" by (cases toks) auto
  show ?case
  proof (cases "c = OptionToken")
    case True
    with toks show ?thesis by (simp add: next_value_def)
  next
    case False
    with Cons.prems have "c \<noteq> OptionValue" "follows c cs" "length ts = length cs"
      using toks by auto
    with Cons.IH [of c ts] False toks show ?thesis by simp
  qed
qed

lemma next_value_option_part:
  "follows OptionToken cs \<Longrightarrow> length toks = length cs \<Longrightarrow>
   next_value (option_tokens toks cs) (option_classes cs) = next_value toks cs"
proof (cases cs)
  case Nil
  then show ?thesis by (simp add: next_value_def split: list.splits)
next
  case (Cons c cs')
  assume f: "follows OptionToken cs" and l: "length toks = length cs"
  from l Cons obtain t ts where toks: "toks = t # ts" by (cases toks) auto
  show ?thesis
  proof (cases "c = OptionToken \<or> c = OptionValue")
    case True
    with Cons toks show ?thesis by (auto simp: next_value_def)
  next
    case False
    from f l Cons toks have "follows c cs'" "length ts = length cs'" by simp_all
    from option_part_head [OF this(1) _ this(2)] False
    have "next_value (option_tokens ts cs') (option_classes cs') = None" by simp
    with False Cons toks show ?thesis by (simp add: next_value_def)
  qed
qed

lemma recorded_option_part:
  "follows prev cs \<Longrightarrow> length toks = length cs \<Longrightarrow>
   recorded os (option_tokens toks cs) (option_classes cs) = recorded os toks cs"
proof (induction cs arbitrary: toks prev)
  case Nil
  then show ?case by simp
next
  case (Cons c cs)
  then obtain t ts where toks: "toks = t # ts" by (cases toks) auto
  from Cons.prems toks have f: "follows c cs" and l: "length ts = length cs" by simp_all
  note ih = Cons.IH [OF f l]
  show ?case
  proof (cases "c = OptionToken")
    case True
    with f l have "next_value (option_tokens ts cs) (option_classes cs) = next_value ts cs"
      by (simp add: next_value_option_part)
    with True toks ih show ?thesis by (simp split: option.splits)
  next
    case False
    with toks ih show ?thesis by simp
  qed
qed

text \<open>
  Claim C1, amended. When \<open>parse\<close> succeeds, every token of \<open>argv\<close> has exactly one
  class, the classes fit the tokens and are in order, and no token is counted in two
  output collections: the option table is what the tokens consumed as options or
  option values record, and it is recorded from these tokens alone; the positional
  tokens are \<open>m_arguments\<close>, in order; the remaining tokens are
  \<open>m_remaining_arguments\<close>, in order. The tokens consumed as options or option values,
  the positional tokens, the remaining tokens, the executable path and the separator
  \<open>--\<close> (at most one, the token whose iteration executed \<open>break\<close>) add up to the
  length of \<open>argv\<close>.
\<close>

theorem parse_classifies_each_token_once:
  assumes "parse p argv acc = Inr p'"
  shows "\<exists>cs. parse_classes p argv acc = Inr cs \<and> length cs = length argv \<and>
           list_all2 fits argv cs \<and> in_order cs \<and>
           m_options p' =
             record_all Map.empty
               (recorded (m_available_options p) (option_tokens argv cs) (option_classes cs)) \<and>
           m_arguments p' = tokens_of Positional argv cs \<and>
           m_remaining_arguments p' = tokens_of Remaining argv cs \<and>
           count_class Executable cs = 1 \<and> count_class Separator cs \<le> 1 \<and>
           length (option_tokens argv cs) + length (m_arguments p') +
             length (m_remaining_arguments p') + 1 + count_class Separator cs = length argv"
proof -
  from assms obtain executable args where argv: "argv = executable # args"
    by (cases argv) (auto simp: parse_def)
  define q where "q = p\<lparr>m_options := Map.empty, m_arguments := [], m_remaining_arguments := [],
    m_executable_path := executable\<rparr>"
  let ?os = "m_available_options p"
  from assms argv have loop: "parse_loop ?os acc q args = Inr p'"
    by (simp add: parse_def q_def)
  from token_classes_of_loop [OF loop] obtain cs where cs:
    "token_classes ?os acc q args = Inr cs" "length cs = length args"
    "m_arguments p' = m_arguments q @ tokens_of Positional args cs"
    "m_remaining_arguments p' = tokens_of Remaining args cs @ m_remaining_arguments q"
    "count_class Executable cs = 0" "count_class Separator cs \<le> 1"
    by blast
  have q: "m_arguments q = []" "m_remaining_arguments q = []" "m_options q = Map.empty"
    by (simp_all add: q_def)
  have pc: "parse_classes p argv acc = Inr (Executable # cs)"
    using cs(1) argv by (simp add: parse_classes_def q_def)
  have order: "follows Executable cs"
    by (rule follows_token_classes [OF cs(1)]) simp_all
  from recorded_of_loop [OF loop cs(1)] q
  have opts: "m_options p' = record_all Map.empty (recorded ?os args cs)"
    and fit: "list_all2 fits args cs"
    by simp_all
  from recorded_option_part [OF order, of args ?os] cs(2)
  have part: "recorded ?os (option_tokens args cs) (option_classes cs) = recorded ?os args cs"
    by simp
  have la: "length (m_arguments p') = count_class Positional cs"
    using cs(2,3) q by (simp add: length_tokens_of)
  have lr: "length (m_remaining_arguments p') = count_class Remaining cs"
    using cs(2,4) q by (simp add: length_tokens_of)
  have lo: "length (option_tokens args cs) =
      count_class OptionToken cs + count_class OptionValue cs"
    using cs(2) by (simp add: length_option_tokens)
  have total: "length (option_tokens args cs) + count_class Positional cs +
    count_class Remaining cs + 1 + count_class Separator cs = Suc (length cs)"
    using count_class_total [of cs] cs(5) lo by simp
  have "length (Executable # cs) = length argv \<and>
        list_all2 fits argv (Executable # cs) \<and> in_order (Executable # cs) \<and>
        m_options p' =
          record_all Map.empty
            (recorded ?os (option_tokens argv (Executable # cs))
               (option_classes (Executable # cs))) \<and>
        m_arguments p' = tokens_of Positional argv (Executable # cs) \<and>
        m_remaining_arguments p' = tokens_of Remaining argv (Executable # cs) \<and>
        count_class Executable (Executable # cs) = 1 \<and>
        count_class Separator (Executable # cs) \<le> 1 \<and>
        length (option_tokens argv (Executable # cs)) + length (m_arguments p') +
          length (m_remaining_arguments p') + 1 + count_class Separator (Executable # cs) =
          length argv"
    using cs q la lr total argv order opts fit part by simp
  with pc show ?thesis by blast
qed

lemma values_parse: "parse example_parser values_argv True = Inr values_result"
  by (simp add: eval_defs values_argv_def values_result_def)

lemma values_parse_classes: "parse_classes example_parser values_argv True = Inr values_classes"
  by (simp add: eval_defs values_argv_def values_classes_def)

theorem parse_classifies_each_token_once_witness:
  "parse example_parser values_argv True = Inr values_result \<and>
   parse_classes example_parser values_argv True = Inr values_classes \<and>
   option_tokens values_argv values_classes = [''-v'', ''-o'', ''out.txt''] \<and>
   option_classes values_classes = [OptionToken, OptionToken, OptionValue] \<and>
   m_options values_result =
     record_all Map.empty
       (recorded example_options [''-v'', ''-o'', ''out.txt'']
          [OptionToken, OptionToken, OptionValue]) \<and>
   m_arguments values_result = tokens_of Positional values_argv values_classes \<and>
   m_remaining_arguments values_result = tokens_of Remaining values_argv values_classes \<and>
   length (option_tokens values_argv values_classes) + length (m_arguments values_result) +
     length (m_remaining_arguments values_result) + 1 + count_class Separator values_classes =
     length values_argv"
proof -
  from parse_classifies_each_token_once [OF values_parse] obtain cs where cs:
    "parse_classes example_parser values_argv True = Inr cs"
    "m_options values_result =
       record_all Map.empty
         (recorded (m_available_options example_parser) (option_tokens values_argv cs)
            (option_classes cs))"
    "m_arguments values_result = tokens_of Positional values_argv cs"
    "m_remaining_arguments values_result = tokens_of Remaining values_argv cs"
    "length (option_tokens values_argv cs) + length (m_arguments values_result) +
       length (m_remaining_arguments values_result) + 1 + count_class Separator cs =
       length values_argv"
    by blast
  from cs(1) values_parse_classes have eq: "cs = values_classes" by simp
  have ot: "option_tokens values_argv values_classes = [''-v'', ''-o'', ''out.txt'']"
    "option_classes values_classes = [OptionToken, OptionToken, OptionValue]"
    by (simp_all add: values_argv_def values_classes_def)
  have os: "m_available_options example_parser = example_options"
    by (simp add: example_parser_def)
  from cs(2-5) values_parse values_parse_classes show ?thesis
    unfolding eq ot os by simp
qed

text \<open>
  Claim C1 as stated counts no separator. In the scenario
  \<open>prog -v --output=out.txt file1 file2 -- extra1 extra2\<close> the tokens consumed as
  options (2), the positional tokens (2), the remaining tokens (2) and the executable
  path add up to 7, and \<open>argv\<close> has 8 tokens: the separator is in none of the
  collections.
\<close>

theorem token_count_without_separator_counterexample:
  "parse example_parser scenario_argv True = Inr scenario_result \<and>
   parse_classes example_parser scenario_argv True = Inr scenario_classes \<and>
   option_tokens scenario_argv scenario_classes = [''-v'', ''--output=out.txt''] \<and>
   length (option_tokens scenario_argv scenario_classes) +
     length (m_arguments scenario_result) + length (m_remaining_arguments scenario_result) + 1 = 7 \<and>
   length scenario_argv = 8"
  using scenario_parse scenario_parse_classes
  by (simp add: scenario_classes_def scenario_result_def scenario_argv_def)

end
